theory Spec2Isabelle
  imports Main
begin

section \<open>Outcomes of a Go call\<close>

text \<open>
  A Go function of this program ends in one of three ways: it returns normally, it returns
  a non-nil \<open>error\<close>, or it panics (a run-time error that aborts the program). The last two
  are the two kinds of \<open>failure\<close>; a result is \<open>Inr v\<close> for a normal return and
  \<open>Inl f\<close> otherwise.
\<close>

datatype operand = N1 | N2

datatype num_error = ErrSyntax | ErrRange | ErrBase

datatype error =
    KeyTooLong                        \<comment> \<open>"key longer than 36 characters" (CipherFromKey)\<close>
  | DuplicateKeyLetter                \<comment> \<open>"key contains repeat letters" (CipherFromKey)\<close>
  | CipherKeyTooLong                  \<comment> \<open>"cipher key too long" (MakeNumbers)\<close>
  | InvalidNumeral operand num_error  \<comment> \<open>"invalid base-11 string n1/n2: ..." (BaseAdd, BaseTimes)\<close>

datatype panic =
    IndexOutOfRange                   \<comment> \<open>index out of range on a slice\<close>
  | MakesliceLenOutOfRange            \<comment> \<open>\<open>make([]T, n)\<close> with a negative \<open>n\<close>\<close>
  | IllegalFormatBase                 \<comment> \<open>\<open>strconv.FormatInt\<close> with a base outside 2..36\<close>

datatype failure = Error error | Panic panic

type_synonym 'a result = "failure + 'a"

text \<open>
  A rune is a Unicode code point (Go's \<open>int32\<close>), and a Go \<open>int\<close> is modelled by \<open>int\<close>.
  The only arithmetic of the program that can leave the range of its machine type is the
  \<open>int64\<close> sum of \<open>BaseAdd\<close>, where the wrap-around is written out; every integer that
  \<open>FindValidSums\<close> computes lies between 0 and \<open>maxSum\<close>, and every rune that
  \<open>MakeNumbers\<close> computes is below 128. Running out of memory on a very large \<open>maxSum\<close>
  is not modelled.
\<close>

type_synonym rune = int

section \<open>Go strings: bytes, and the runes a range loop reads\<close>

text \<open>
  A Go string is a sequence of bytes: \<open>len(s)\<close> counts bytes, while
  \<open>for _, r := range s\<close> decodes UTF-8 and yields one rune per encoded code point
  (U+FFFD, one byte wide, for a byte that starts no valid encoding). A \<open>string\<close> here is
  the byte sequence; \<open>decode_rune\<close> is the decoding step of the range loop, giving the
  rune and the number of bytes it takes.
\<close>

definition RuneError :: rune where
  "RuneError = 0xFFFD"

definition decode_rune :: "string \<Rightarrow> rune \<times> nat" where
  "decode_rune s =
     (case s of
        [] \<Rightarrow> (RuneError, 0)
      | c0 # _ \<Rightarrow>
          let b0 = (of_char c0 :: nat) in
          if b0 < 0x80 then (int b0, 1)
          else if b0 < 0xC2 \<or> 0xF4 < b0 then (RuneError, 1)
          else
            let sz = (if b0 < 0xE0 then 2 else if b0 < 0xF0 then 3 else (4::nat));
                lo = (if b0 = 0xE0 then 0xA0 else if b0 = 0xF0 then 0x90 else (0x80::nat));
                hi = (if b0 = 0xED then 0x9F else if b0 = 0xF4 then 0x8F else (0xBF::nat))
            in
            if length s < sz then (RuneError, 1)
            else
              let b1 = (of_char (s ! 1) :: nat) in
              if b1 < lo \<or> hi < b1 then (RuneError, 1)
              else if sz = 2 then (int ((b0 mod 0x20) * 0x40 + b1 mod 0x40), 2)
              else
                let b2 = (of_char (s ! 2) :: nat) in
                if b2 < 0x80 \<or> 0xBF < b2 then (RuneError, 1)
                else if sz = 3 then
                  (int ((b0 mod 0x10) * 0x1000 + (b1 mod 0x40) * 0x40 + b2 mod 0x40), 3)
                else
                  let b3 = (of_char (s ! 3) :: nat) in
                  if b3 < 0x80 \<or> 0xBF < b3 then (RuneError, 1)
                  else
                    (int ((b0 mod 0x08) * 0x40000 + (b1 mod 0x40) * 0x1000
                          + (b2 mod 0x40) * 0x40 + b3 mod 0x40), 4))"

text \<open>The runes of a string, in the order a range loop yields them.\<close>

function runes :: "string \<Rightarrow> rune list" where
  "runes s =
     (if s = [] then []
      else fst (decode_rune s) # runes (drop (snd (decode_rune s)) s))"
  by pat_completeness auto
termination
proof (relation "measure length")
  show "wf (measure length)" by simp
next
  fix s :: string
  assume "s \<noteq> []"
  then have "1 \<le> snd (decode_rune s)"
    by (cases s) (simp_all add: decode_rune_def Let_def)
  moreover from \<open>s \<noteq> []\<close> have "0 < length s" by simp
  ultimately show "(drop (snd (decode_rune s)) s, s) \<in> measure length" by simp
qed

declare runes.simps [simp del]

text \<open>
  The conversion \<open>string(rs)\<close> of a rune slice: the UTF-8 encoding of each rune, with
  U+FFFD in place of a value that is no valid code point.
\<close>

definition encode_rune :: "rune \<Rightarrow> string" where
  "encode_rune r =
     (if r < 0 \<or> 0x10FFFF < r \<or> (0xD800 \<le> r \<and> r \<le> 0xDFFF) then
        [char_of (0xEF::nat), char_of (0xBF::nat), char_of (0xBD::nat)]
      else if r \<le> 0x7F then [char_of (nat r)]
      else if r \<le> 0x7FF then
        [char_of (0xC0 + nat r div 0x40), char_of (0x80 + nat r mod 0x40)]
      else if r \<le> 0xFFFF then
        [char_of (0xE0 + nat r div 0x1000), char_of (0x80 + nat r div 0x40 mod 0x40),
         char_of (0x80 + nat r mod 0x40)]
      else
        [char_of (0xF0 + nat r div 0x40000), char_of (0x80 + nat r div 0x1000 mod 0x40),
         char_of (0x80 + nat r div 0x40 mod 0x40), char_of (0x80 + nat r mod 0x40)])"

definition string_of_runes :: "rune list \<Rightarrow> string" where
  "string_of_runes rs = concat (map encode_rune rs)"

section \<open>The cipher\<close>

record Cipher =
  letterToNumber :: "rune \<rightharpoonup> rune"
  numberToLetter :: "rune \<rightharpoonup> rune"
  base :: int

text \<open>Reading a Go map at a key it does not hold gives the zero value, here the rune 0.\<close>

definition map_index :: "(rune \<rightharpoonup> rune) \<Rightarrow> rune \<Rightarrow> rune" where
  "map_index m k = (case m k of None \<Rightarrow> 0 | Some v \<Rightarrow> v)"

text \<open>
  \<open>for i := range n { body }\<close> over an integer: \<open>i\<close> runs through \<open>0, ..., n - 1\<close>, and the
  loop does nothing when \<open>n \<le> 0\<close>.
\<close>

definition for_range :: "int \<Rightarrow> (int \<Rightarrow> 's \<Rightarrow> 's) \<Rightarrow> 's \<Rightarrow> 's" where
  "for_range n body s = fold body [0..n - 1] s"

definition MakeNumbers :: "int \<Rightarrow> bool \<Rightarrow> rune list result" where
  "MakeNumbers l leading0 =
     (if l \<ge> 36 then Inl (Error CipherKeyTooLong)
      else
        let lengthWithout0 = l - 1;
            numbers =
              (if lengthWithout0 \<le> 8 then
                 for_range lengthWithout0 (\<lambda>i numbers. numbers @ [0x30 + i + 1]) []
               else
                 let numbers = for_range 9 (\<lambda>i numbers. numbers @ [0x30 + i + 1]) [];
                     lettersLength = lengthWithout0 - 9
                 in for_range lettersLength (\<lambda>i numbers. numbers @ [0x61 + i]) numbers)
        in if leading0 then Inr ([0x30] @ numbers) else Inr (numbers @ [0x30]))"

text \<open>
  The first loop of \<open>CipherFromKey\<close>: the runes of the key are collected, and a rune
  already collected ends the function with an error.
\<close>

fun collect_letters :: "rune list \<Rightarrow> rune list \<Rightarrow> rune list result" where
  "collect_letters [] letters = Inr letters"
| "collect_letters (l # ls) letters =
     (if l \<in> set letters then Inl (Error DuplicateKeyLetter)
      else collect_letters ls (letters @ [l]))"

text \<open>
  The second loop, \<open>for i := range length\<close>, over the indices still to visit: reading
  \<open>letters[i]\<close> or \<open>numbers[i]\<close> past the end of the slice panics.
\<close>

fun fill_maps ::
  "nat list \<Rightarrow> rune list \<Rightarrow> rune list \<Rightarrow> (rune \<rightharpoonup> rune) \<times> (rune \<rightharpoonup> rune)
     \<Rightarrow> ((rune \<rightharpoonup> rune) \<times> (rune \<rightharpoonup> rune)) result" where
  "fill_maps [] letters numbers m = Inr m"
| "fill_maps (i # is) letters numbers m =
     (if length letters \<le> i \<or> length numbers \<le> i then Inl (Panic IndexOutOfRange)
      else fill_maps is letters numbers
             ((fst m)(letters ! i \<mapsto> numbers ! i), (snd m)(numbers ! i \<mapsto> letters ! i)))"

definition CipherFromKey :: "string \<Rightarrow> bool \<Rightarrow> Cipher result" where
  "CipherFromKey k leading0 =
     (if length k \<ge> 36 then Inl (Error KeyTooLong)
      else
        case collect_letters (runes k) [] of
          Inl e \<Rightarrow> Inl e
        | Inr letters \<Rightarrow>
            (case MakeNumbers (int (length k)) leading0 of
               Inl e \<Rightarrow> Inl e
             | Inr numbers \<Rightarrow>
                 (case fill_maps [0..<length k] letters numbers (Map.empty, Map.empty) of
                    Inl e \<Rightarrow> Inl e
                  | Inr m \<Rightarrow>
                      Inr \<lparr>letterToNumber = fst m, numberToLetter = snd m,
                           base = int (length k)\<rparr>)))"

definition FromLetters :: "Cipher \<Rightarrow> string \<Rightarrow> string" where
  "FromLetters c letters =
     string_of_runes (map (\<lambda>l. map_index (letterToNumber c) l) (runes letters))"

definition FromNumbers :: "Cipher \<Rightarrow> string \<Rightarrow> string" where
  "FromNumbers c numbers =
     string_of_runes (map (\<lambda>n. map_index (numberToLetter c) n) (runes numbers))"

section \<open>strconv: formatting and parsing integers in a base\<close>

text \<open>
  \<open>strconv.FormatInt(i, base)\<close> panics unless \<open>2 \<le> base \<le> 36\<close>; otherwise it writes the
  digits of \<open>|i|\<close>, most significant first, from the alphabet
  \<open>0123456789abcdefghijklmnopqrstuvwxyz\<close>, after a minus sign when \<open>i\<close> is negative.
  \<open>fmt_digits\<close> is the general loop of \<open>formatBits\<close> (the library's shortcuts for base 10
  and for powers of two produce the same digits).
\<close>

definition digits :: string where
  "digits = ''0123456789abcdefghijklmnopqrstuvwxyz''"

function fmt_digits :: "nat \<Rightarrow> nat \<Rightarrow> string" where
  "fmt_digits b u =
     (if 2 \<le> b \<and> b \<le> u then fmt_digits b (u div b) @ [digits ! (u mod b)]
      else [digits ! u])"
  by pat_completeness auto
termination
  by (relation "measure snd") auto

declare fmt_digits.simps [simp del]

definition format_int :: "int \<Rightarrow> int \<Rightarrow> string" where
  "format_int i b =
     (if i < 0 then CHR ''-'' # fmt_digits (nat b) (nat (- i)) else fmt_digits (nat b) (nat i))"

definition FormatInt :: "int \<Rightarrow> int \<Rightarrow> string result" where
  "FormatInt i b =
     (if b < 2 \<or> 36 < b then Inl (Panic IllegalFormatBase) else Inr (format_int i b))"

definition Itoa :: "int \<Rightarrow> string" where
  "Itoa i = format_int i 10"

text \<open>
  \<open>strconv.ParseUint(s, base, 64)\<close> for an explicit base: every byte must be a digit or a
  letter (of either case) whose value is below the base; the value is accumulated in a
  \<open>uint64\<close>, and the first step that would overflow ends the loop with a range error.
  Base 0 asks the library to read the base from the numeral's prefix; that mode is
  outside this development, which leaves the result at base 0 unspecified.
\<close>

definition lower :: "nat \<Rightarrow> nat" where
  "lower x = (if (x div 0x20) mod 2 = 1 then x else x + 0x20)"

definition digit_value :: "char \<Rightarrow> nat option" where
  "digit_value c =
     (let x = (of_char c :: nat) in
      if 0x30 \<le> x \<and> x \<le> 0x39 then Some (x - 0x30)
      else if 0x61 \<le> lower x \<and> lower x \<le> 0x7A then Some (lower x - 0x61 + 10)
      else None)"

definition maxUint64 :: nat where
  "maxUint64 = 2 ^ 64 - 1"

fun parse_digits :: "nat \<Rightarrow> nat \<Rightarrow> string \<Rightarrow> num_error + nat" where
  "parse_digits b n [] = Inr n"
| "parse_digits b n (c # cs) =
     (case digit_value c of
        None \<Rightarrow> Inl ErrSyntax
      | Some d \<Rightarrow>
          if d \<ge> b then Inl ErrSyntax
          else if n \<ge> maxUint64 div b + 1 then Inl ErrRange
          else
            let n' = (n * b) mod 2 ^ 64;
                n1 = (n' + d) mod 2 ^ 64
            in if n1 < n' \<or> n1 > maxUint64 then Inl ErrRange
               else parse_digits b n1 cs)"

definition ParseUint :: "string \<Rightarrow> int \<Rightarrow> num_error + nat" where
  "ParseUint s b =
     (if s = [] then Inl ErrSyntax
      else if 2 \<le> b \<and> b \<le> 36 then parse_digits (nat b) 0 s
      else if b = 0 then undefined
      else Inl ErrBase)"

definition ParseInt :: "string \<Rightarrow> int \<Rightarrow> num_error + int" where
  "ParseInt s b =
     (if s = [] then Inl ErrSyntax
      else
        let neg = (hd s = CHR ''-'');
            s' = (if hd s = CHR ''+'' \<or> hd s = CHR ''-'' then tl s else s)
        in case ParseUint s' b of
             Inl e \<Rightarrow> Inl e
           | Inr un \<Rightarrow>
               if \<not> neg \<and> un \<ge> 2 ^ 63 then Inl ErrRange
               else if neg \<and> un > 2 ^ 63 then Inl ErrRange
               else Inr (if neg then - int un else int un))"

text \<open>Arithmetic on \<open>int64\<close> wraps around.\<close>

definition wrap64 :: "int \<Rightarrow> int" where
  "wrap64 x = (x + 2 ^ 63) mod 2 ^ 64 - 2 ^ 63"

definition BaseAdd :: "string \<Rightarrow> string \<Rightarrow> int \<Rightarrow> string result" where
  "BaseAdd n1 n2 b =
     (case ParseInt n1 b of
        Inl e \<Rightarrow> Inl (Error (InvalidNumeral N1 e))
      | Inr val1 \<Rightarrow>
          (case ParseInt n2 b of
             Inl e \<Rightarrow> Inl (Error (InvalidNumeral N2 e))
           | Inr val2 \<Rightarrow> let sum = wrap64 (val1 + val2) in FormatInt sum b))"

section \<open>The search for sums\<close>

type_synonym WordList = "string set"

definition IsValidWord :: "string \<Rightarrow> WordList \<Rightarrow> bool" where
  "IsValidWord w wl = (w \<in> wl)"

record Word =
  numbers :: string
  letters :: string

type_synonym Triplet = "Word \<times> Word \<times> Word"

definition fromInt :: "Cipher \<Rightarrow> int \<Rightarrow> (string \<times> string) result" where
  "fromInt c val =
     (if base c = 10 then
        let ns = Itoa val in Inr (ns, FromNumbers c ns)
      else
        case FormatInt val (base c) of
          Inl f \<Rightarrow> Inl f
        | Inr ns \<Rightarrow> Inr (ns, FromNumbers c ns))"

text \<open>Go's integer division truncates toward zero.\<close>

definition quo :: "int \<Rightarrow> int \<Rightarrow> int" where
  "quo a b = sgn a * sgn b * (\<bar>a\<bar> div \<bar>b\<bar>)"

text \<open>An index into a slice is in range when it is neither negative nor past the end.\<close>

definition in_range :: "'a list \<Rightarrow> int \<Rightarrow> bool" where
  "in_range xs i = (0 \<le> i \<and> i < int (length xs))"

text \<open>
  The three slices the first loop fills: the word of every valid integer, the validity
  flags, and the valid integers in the order they were found.
\<close>

record scan =
  validInfo :: "Word list"
  isValid :: "bool list"
  validNumbers :: "int list"

fun scan_loop :: "Cipher \<Rightarrow> WordList \<Rightarrow> int list \<Rightarrow> scan \<Rightarrow> scan result" where
  "scan_loop c wl [] st = Inr st"
| "scan_loop c wl (k # ks) st =
     (case fromInt c k of
        Inl f \<Rightarrow> Inl f
      | Inr (ns, ls) \<Rightarrow>
          if IsValidWord ls wl then
            (if \<not> in_range (validInfo st) k \<or> \<not> in_range (isValid st) k
             then Inl (Panic IndexOutOfRange)
             else scan_loop c wl ks
                    \<lparr>validInfo = (validInfo st)[nat k := \<lparr>numbers = ns, letters = ls\<rparr>],
                     isValid = (isValid st)[nat k := True],
                     validNumbers = validNumbers st @ [k]\<rparr>)
          else scan_loop c wl ks st)"

definition scan_all :: "Cipher \<Rightarrow> WordList \<Rightarrow> int \<Rightarrow> scan result" where
  "scan_all c wl maxSum =
     (if maxSum < 0 then Inl (Panic MakesliceLenOutOfRange)
      else scan_loop c wl [0..maxSum - 1]
             \<lparr>validInfo = replicate (nat maxSum) \<lparr>numbers = [], letters = []\<rparr>,
              isValid = replicate (nat maxSum) False,
              validNumbers = []\<rparr>)"

subsection \<open>The version that returns the triplets as a slice\<close>

fun inner_loop_slice ::
  "int \<Rightarrow> scan \<Rightarrow> int \<Rightarrow> Word \<Rightarrow> int list \<Rightarrow> Triplet list \<Rightarrow> Triplet list result" where
  "inner_loop_slice maxNumber st i iWord [] result = Inr result"
| "inner_loop_slice maxNumber st i iWord (j # js) result =
     (if j < i then inner_loop_slice maxNumber st i iWord js result
      else if j \<ge> maxNumber then Inr result
      else if \<not> in_range (isValid st) (i + j) then Inl (Panic IndexOutOfRange)
      else if isValid st ! nat (i + j) then
        (if \<not> in_range (validInfo st) j \<or> \<not> in_range (validInfo st) (i + j)
         then Inl (Panic IndexOutOfRange)
         else inner_loop_slice maxNumber st i iWord js
                (result @ [(iWord, validInfo st ! nat j, validInfo st ! nat (i + j))]))
      else inner_loop_slice maxNumber st i iWord js result)"

fun outer_loop_slice ::
  "int \<Rightarrow> scan \<Rightarrow> int list \<Rightarrow> Triplet list \<Rightarrow> Triplet list result" where
  "outer_loop_slice maxNumber st [] result = Inr result"
| "outer_loop_slice maxNumber st (i # is) result =
     (if i \<ge> maxNumber then Inr result
      else if \<not> in_range (validInfo st) i then Inl (Panic IndexOutOfRange)
      else
        case inner_loop_slice maxNumber st i (validInfo st ! nat i) (validNumbers st) result of
          Inl f \<Rightarrow> Inl f
        | Inr result' \<Rightarrow> outer_loop_slice maxNumber st is result')"

definition FindValidSums_slice :: "Cipher \<Rightarrow> int \<Rightarrow> WordList \<Rightarrow> Triplet list result" where
  "FindValidSums_slice c maxSum wl =
     (let maxNumber = quo maxSum 2 in
      case scan_all c wl maxSum of
        Inl f \<Rightarrow> Inl f
      | Inr st \<Rightarrow> outer_loop_slice maxNumber st (validNumbers st) [])"

subsection \<open>The version that hands each triplet to an action\<close>

text \<open>
  The action is a procedure with an effect; it is a function from the triplet and the
  state of whatever it writes to (a CSV writer in \<open>main\<close>) to the new state.
\<close>

fun inner_loop ::
  "int \<Rightarrow> scan \<Rightarrow> int \<Rightarrow> Word \<Rightarrow> int list \<Rightarrow> (Triplet \<Rightarrow> 'w \<Rightarrow> 'w) \<Rightarrow> 'w \<Rightarrow> 'w result" where
  "inner_loop maxNumber st i iWord [] action w = Inr w"
| "inner_loop maxNumber st i iWord (j # js) action w =
     (if j < i then inner_loop maxNumber st i iWord js action w
      else if j \<ge> maxNumber then Inr w
      else if \<not> in_range (isValid st) (i + j) then Inl (Panic IndexOutOfRange)
      else if isValid st ! nat (i + j) then
        (if \<not> in_range (validInfo st) j \<or> \<not> in_range (validInfo st) (i + j)
         then Inl (Panic IndexOutOfRange)
         else inner_loop maxNumber st i iWord js action
                (action (iWord, validInfo st ! nat j, validInfo st ! nat (i + j)) w))
      else inner_loop maxNumber st i iWord js action w)"

fun outer_loop ::
  "int \<Rightarrow> scan \<Rightarrow> int list \<Rightarrow> (Triplet \<Rightarrow> 'w \<Rightarrow> 'w) \<Rightarrow> 'w \<Rightarrow> 'w result" where
  "outer_loop maxNumber st [] action w = Inr w"
| "outer_loop maxNumber st (i # is) action w =
     (if i \<ge> maxNumber then Inr w
      else if \<not> in_range (validInfo st) i then Inl (Panic IndexOutOfRange)
      else
        case inner_loop maxNumber st i (validInfo st ! nat i) (validNumbers st) action w of
          Inl f \<Rightarrow> Inl f
        | Inr w' \<Rightarrow> outer_loop maxNumber st is action w')"

definition FindValidSums ::
  "Cipher \<Rightarrow> int \<Rightarrow> WordList \<Rightarrow> (Triplet \<Rightarrow> 'w \<Rightarrow> 'w) \<Rightarrow> 'w \<Rightarrow> 'w result" where
  "FindValidSums c maxSum wl action w =
     (let maxNumber = quo maxSum 2 in
      case scan_all c wl maxSum of
        Inl f \<Rightarrow> Inl f
      | Inr st \<Rightarrow> outer_loop maxNumber st (validNumbers st) action w)"

text \<open>
  The triplets a call emits: the call run with the action that appends its argument to a
  log, started on the empty log.
\<close>

definition emitted :: "Cipher \<Rightarrow> int \<Rightarrow> WordList \<Rightarrow> Triplet list result" where
  "emitted c maxSum wl = FindValidSums c maxSum wl (\<lambda>t log. log @ [t]) []"

section \<open>Notions used to state the properties\<close>

text \<open>
  The value-symbols in the order the specification lists them: \<open>'1'..'9'\<close>, then
  \<open>'a'\<close> onward; \<open>value_symbols n\<close> is the first \<open>n\<close> of them.
\<close>

definition value_symbols :: "int \<Rightarrow> rune list" where
  "value_symbols n = take (nat n) (map of_char ''123456789abcdefghijklmnopqrstuvwxyz'')"

text \<open>
  The integer a numeral denotes in base \<open>b\<close>: an optional sign, then digits read
  positionally, most significant first. A numeral is valid in base \<open>b\<close> when it has at
  least one digit and every digit is below \<open>b\<close>.
\<close>

definition digit_of :: "char \<Rightarrow> nat" where
  "digit_of c = (case digit_value c of None \<Rightarrow> 0 | Some d \<Rightarrow> d)"

definition unsigned_value :: "nat \<Rightarrow> string \<Rightarrow> nat" where
  "unsigned_value b s = foldl (\<lambda>n c. n * b + digit_of c) 0 s"

definition unsigned_part :: "string \<Rightarrow> string" where
  "unsigned_part s =
     (case s of [] \<Rightarrow> [] | c # t \<Rightarrow> if c = CHR ''+'' \<or> c = CHR ''-'' then t else s)"

definition numeral_value :: "int \<Rightarrow> string \<Rightarrow> int" where
  "numeral_value b s =
     (case s of
        [] \<Rightarrow> 0
      | c # t \<Rightarrow>
          if c = CHR ''-'' then - int (unsigned_value (nat b) t)
          else int (unsigned_value (nat b) (unsigned_part s)))"

definition is_digit_below :: "nat \<Rightarrow> char \<Rightarrow> bool" where
  "is_digit_below b c = (case digit_value c of None \<Rightarrow> False | Some d \<Rightarrow> d < b)"

definition valid_numeral :: "int \<Rightarrow> string \<Rightarrow> bool" where
  "valid_numeral b s =
     (unsigned_part s \<noteq> [] \<and> list_all (is_digit_below (nat b)) (unsigned_part s))"

text \<open>The word the search builds for an integer: its numeral and the numeral's letters.\<close>

definition word_of :: "Cipher \<Rightarrow> int \<Rightarrow> Word" where
  "word_of c v =
     (case fromInt c v of
        Inl f \<Rightarrow> \<lparr>numbers = [], letters = []\<rparr>
      | Inr (ns, ls) \<Rightarrow> \<lparr>numbers = ns, letters = ls\<rparr>)"

text \<open>The cipher of the key \<open>ab\<close> without a leading zero: \<open>a\<close> is 1 and \<open>b\<close> is 0.\<close>

definition cipher_ab :: Cipher where
  "cipher_ab =
     \<lparr>letterToNumber = [0x61 \<mapsto> 0x31, 0x62 \<mapsto> 0x30],
      numberToLetter = [0x31 \<mapsto> 0x61, 0x30 \<mapsto> 0x62],
      base = 2\<rparr>"

text \<open>The cipher of the one-letter key \<open>a\<close>; its base is 1.\<close>

definition cipher_a :: Cipher where
  "cipher_a = \<lparr>letterToNumber = [0x61 \<mapsto> 0x30], numberToLetter = [0x30 \<mapsto> 0x61], base = 1\<rparr>"

text \<open>A small dictionary over the letters \<open>a\<close> and \<open>b\<close>.\<close>

definition words_ab :: WordList where
  "words_ab = {''b'', ''a'', ''ab'', ''aa''}"

text \<open>
  The rune that the conversion \<open>string(rs)\<close> writes for a value: the value itself when it
  is a code point, and U+FFFD otherwise.
\<close>

definition code_point :: "rune \<Rightarrow> rune" where
  "code_point r =
     (if r < 0 \<or> 0x10FFFF < r \<or> (0xD800 \<le> r \<and> r \<le> 0xDFFF) then RuneError else r)"

text \<open>
  A valid integer is one whose word is in the dictionary; the triplet of two addends holds
  their words and the word of their sum.
\<close>

definition valid_int :: "Cipher \<Rightarrow> WordList \<Rightarrow> int \<Rightarrow> bool" where
  "valid_int c wl k = IsValidWord (letters (word_of c k)) wl"

definition triplet_of :: "Cipher \<Rightarrow> int \<Rightarrow> int \<Rightarrow> Triplet" where
  "triplet_of c i j = (word_of c i, word_of c j, word_of c (i + j))"

text \<open>
  The invariant of the first loop of \<open>FindValidSums\<close>, once the integers below \<open>a\<close> have
  been visited: the valid ones among them are listed in increasing order, flagged, and
  stored with their words, and no integer from \<open>a\<close> on is flagged.
\<close>

definition scanned_to :: "Cipher \<Rightarrow> WordList \<Rightarrow> int \<Rightarrow> int \<Rightarrow> scan \<Rightarrow> bool" where
  "scanned_to c wl m a st =
     (length (validInfo st) = nat m \<and> length (isValid st) = nat m
      \<and> validNumbers st = filter (valid_int c wl) [0..a - 1]
      \<and> (\<forall>k. 0 \<le> k \<and> k < a \<longrightarrow>
             isValid st ! nat k = valid_int c wl k
             \<and> (valid_int c wl k \<longrightarrow> validInfo st ! nat k = word_of c k))
      \<and> (\<forall>k. a \<le> k \<and> k < m \<longrightarrow> isValid st ! nat k = False))"

section \<open>MakeNumbers\<close>

lemma upto_map_upt: "[0..n - 1] = map int [0..<nat n]"
proof (cases "0 \<le> n")
  case True
  then obtain k where k: "n = int k"
    using nonneg_int_cases by blast
  have "[0..int k - 1] = map int [0..<k]"
  proof (induction k)
    case 0
    then show ?case by simp
  next
    case (Suc k)
    have "[0..int (Suc k) - 1] = [0..int k - 1] @ [int k]"
      using upto_rec2[of 0 "int k"] by simp
    then show ?case using Suc by simp
  qed
  then show ?thesis using k by simp
next
  case False
  then show ?thesis by simp
qed

lemma for_range_append:
  "for_range n (\<lambda>i ns. ns @ [f i]) acc = acc @ map (\<lambda>i. f (int i)) [0..<nat n]"
proof -
  have "fold (\<lambda>i ns. ns @ [f i]) xs acc = acc @ map f xs" for xs
    by (induction xs arbitrary: acc) simp_all
  then show ?thesis by (simp add: for_range_def upto_map_upt comp_def)
qed

lemma symbols_nth:
  "i < 35 \<Longrightarrow> map of_char ''123456789abcdefghijklmnopqrstuvwxyz'' ! i
     = (if i < 9 then 0x31 + int i else 0x58 + int i)"
  by (simp add: nth_Cons')

lemma value_symbols_eq:
  assumes "0 \<le> n" "n \<le> 35"
  shows "value_symbols n
           = map (\<lambda>i. if i < 9 then 0x31 + int i else 0x58 + int i) [0..<nat n]"
proof (rule nth_equalityI)
  show "length (value_symbols n)
          = length (map (\<lambda>i. if i < 9 then 0x31 + int i else 0x58 + int i) [0..<nat n])"
    using assms by (simp add: value_symbols_def)
next
  fix i
  assume "i < length (value_symbols n)"
  then have i: "i < nat n" "i < 35"
    using assms by (simp_all add: value_symbols_def)
  then show "value_symbols n ! i
               = map (\<lambda>i. if i < 9 then 0x31 + int i else 0x58 + int i) [0..<nat n] ! i"
    using symbols_nth[OF i(2)] by (simp add: value_symbols_def)
qed

lemma MakeNumbers_eq:
  assumes "1 \<le> l" "l < 36"
  shows "MakeNumbers l leading0
           = Inr (if leading0 then [0x30] @ value_symbols (l - 1)
                  else value_symbols (l - 1) @ [0x30])"
proof (cases "l - 1 \<le> 8")
  case True
  have "map (\<lambda>i. 0x30 + int i + 1) [0..<nat (l - 1)] = value_symbols (l - 1)"
    using assms True by (auto simp add: value_symbols_eq)
  then show ?thesis
    using assms True by (simp add: MakeNumbers_def for_range_append)
next
  case False
  define k where "k = nat (l - 10)"
  have n: "nat (l - 1) = 9 + k"
    using False by (simp add: k_def)
  have "[0..<9 + k] = [0..<9] @ [9..<9 + k]"
    by (metis le_add1 upt_add_eq_append zero_le add_0)
  moreover have "[9..<9 + k] = map (\<lambda>i. i + 9) [0..<k]"
    by (simp add: map_add_upt add.commute)
  ultimately have "value_symbols (l - 1)
      = map (\<lambda>i. 0x30 + int i + 1) [0..<9] @ map (\<lambda>i. 0x61 + int i) [0..<k]"
    using assms False by (simp add: value_symbols_eq n comp_def)
  then show ?thesis
    using assms False by (simp add: MakeNumbers_def for_range_append Let_def k_def)
qed

lemma length_value_symbols: "0 \<le> n \<Longrightarrow> n \<le> 35 \<Longrightarrow> length (value_symbols n) = nat n"
  by (simp add: value_symbols_def)

text \<open>
  C7, as amended. For every \<open>l\<close> with \<open>1 \<le> l < 36\<close> and either flag, \<open>MakeNumbers\<close>
  returns exactly \<open>l\<close> value-symbols: the first \<open>l - 1\<close> of \<open>'1'..'9'\<close>, \<open>'a'\<close> onward,
  in that order, with \<open>'0'\<close> in front of them when \<open>leading0\<close> is set and behind them
  otherwise.
\<close>

theorem MakeNumbers_symbols:
  assumes "1 \<le> l" and "l < 36"
  shows "\<exists>ns. MakeNumbers l leading0 = Inr ns \<and> length ns = nat l
              \<and> ns = (if leading0 then 0x30 # value_symbols (l - 1)
                       else value_symbols (l - 1) @ [0x30])"
  using assms by (simp add: MakeNumbers_eq length_value_symbols)

theorem MakeNumbers_symbols_witness:
  "(1::int) \<le> 12 \<and> (12::int) < 36
   \<and> MakeNumbers 12 False
       = Inr [0x31, 0x32, 0x33, 0x34, 0x35, 0x36, 0x37, 0x38, 0x39, 0x61, 0x62, 0x30]
   \<and> MakeNumbers 12 True
       = Inr [0x30, 0x31, 0x32, 0x33, 0x34, 0x35, 0x36, 0x37, 0x38, 0x39, 0x61, 0x62]"
  using MakeNumbers_symbols[of 12 False] MakeNumbers_symbols[of 12 True]
  by (simp add: value_symbols_def)

text \<open>
  For \<open>l = 0\<close> the loops add nothing and \<open>'0'\<close> is still appended: the result has one
  symbol, not \<open>l\<close>.
\<close>

theorem MakeNumbers_zero_counterexample:
  "MakeNumbers 0 False = Inr [0x30] \<and> MakeNumbers 0 True = Inr [0x30]
   \<and> length [0x30 :: rune] \<noteq> nat 0"
  by (simp add: MakeNumbers_def for_range_def)

section \<open>CipherFromKey\<close>

lemma collect_letters_eq:
  "collect_letters rs acc =
     (if distinct rs \<and> set rs \<inter> set acc = {} then Inr (acc @ rs)
      else Inl (Error DuplicateKeyLetter))"
  by (induction rs arbitrary: acc) auto

lemma length_runes_le: "length (runes s) \<le> length s"
proof (induction s rule: runes.induct)
  case (1 s)
  show ?case
  proof (cases "s = []")
    case True
    then show ?thesis by (simp add: runes.simps)
  next
    case False
    have w: "1 \<le> snd (decode_rune s)"
      using False by (cases s) (simp_all add: decode_rune_def Let_def)
    have "length (runes s) = Suc (length (runes (drop (snd (decode_rune s)) s)))"
      using False by (subst runes.simps) simp
    also have "\<dots> \<le> Suc (length (drop (snd (decode_rune s)) s))"
      using 1[OF False] by simp
    also have "\<dots> \<le> length s"
      using w False by (cases s) auto
    finally show ?thesis .
  qed
qed

lemma fill_maps_panic:
  "fill_maps is ls ns m = Inl f \<Longrightarrow> f = Panic IndexOutOfRange \<and> (\<exists>i\<in>set is. length ls \<le> i \<or> length ns \<le> i)"
  by (induction "is" arbitrary: m) (auto split: if_splits)

lemma fill_maps_ok:
  "\<forall>i\<in>set is. i < length ls \<and> i < length ns \<Longrightarrow> \<exists>m'. fill_maps is ls ns m = Inr m'"
  by (induction "is" arbitrary: m) auto

lemma fill_maps_dom:
  "fill_maps is ls ns m = Inr m' \<Longrightarrow>
     dom (fst m') = dom (fst m) \<union> (\<lambda>i. ls ! i) ` set is \<and>
     dom (snd m') = dom (snd m) \<union> (\<lambda>i. ns ! i) ` set is \<and>
     (\<forall>i\<in>set is. i < length ls \<and> i < length ns)"
  by (induction "is" arbitrary: m) (auto split: if_splits)

lemma fill_maps_keep:
  "fill_maps is ls ns m = Inr m' \<Longrightarrow>
     (k \<notin> (\<lambda>i. ls ! i) ` set is \<longrightarrow> fst m' k = fst m k) \<and>
     (k \<notin> (\<lambda>i. ns ! i) ` set is \<longrightarrow> snd m' k = snd m k)"
  by (induction "is" arbitrary: m) (auto split: if_splits)

lemma fill_maps_lookup:
  "fill_maps is ls ns m = Inr m' \<Longrightarrow> distinct is \<Longrightarrow>
   inj_on (\<lambda>i. ls ! i) (set is) \<Longrightarrow> inj_on (\<lambda>i. ns ! i) (set is) \<Longrightarrow> i \<in> set is \<Longrightarrow>
     fst m' (ls ! i) = Some (ns ! i) \<and> snd m' (ns ! i) = Some (ls ! i)"
proof (induction "is" arbitrary: m)
  case Nil
  then show ?case by simp
next
  case (Cons j js)
  let ?m = "((fst m)(ls ! j \<mapsto> ns ! j), (snd m)(ns ! j \<mapsto> ls ! j))"
  from Cons.prems(1) have run: "fill_maps js ls ns ?m = Inr m'"
    by (simp split: if_splits)
  show ?case
  proof (cases "i = j")
    case True
    have "ls ! j \<notin> (\<lambda>i. ls ! i) ` set js" "ns ! j \<notin> (\<lambda>i. ns ! i) ` set js"
      using Cons.prems(2,3,4) by (auto simp: inj_on_def)
    then show ?thesis using fill_maps_keep[OF run] True by simp
  next
    case False
    then have "i \<in> set js" using Cons.prems(5) by simp
    moreover have "distinct js" "inj_on (\<lambda>i. ls ! i) (set js)" "inj_on (\<lambda>i. ns ! i) (set js)"
      using Cons.prems(2,3,4) by (auto simp: inj_on_def)
    ultimately show ?thesis using Cons.IH[OF run] by blast
  qed
qed

lemma distinct_symbols: "distinct (map of_char ''123456789abcdefghijklmnopqrstuvwxyz'' :: rune list)"
  by simp

lemma zero_notin_symbols: "(0x30::rune) \<notin> set (value_symbols n)"
proof
  assume "(0x30::rune) \<in> set (value_symbols n)"
  then have "(0x30::rune) \<in> set (map of_char ''123456789abcdefghijklmnopqrstuvwxyz'')"
    unfolding value_symbols_def by (rule in_set_takeD)
  then show False by simp
qed

lemma MakeNumbers_props:
  assumes "0 \<le> l" "l < 36"
  shows "\<exists>ns. MakeNumbers l leading0 = Inr ns \<and> nat l \<le> length ns \<and> distinct ns
              \<and> (1 \<le> l \<longrightarrow> length ns = nat l \<and> set ns = insert 0x30 (set (value_symbols (l - 1))))"
proof (cases "l = 0")
  case True
  then show ?thesis by (simp add: MakeNumbers_def for_range_def)
next
  case False
  then have l: "1 \<le> l" using assms by simp
  have "distinct (value_symbols (l - 1))"
    unfolding value_symbols_def using distinct_symbols by (rule distinct_take)
  then show ?thesis
    using l assms by (auto simp add: MakeNumbers_eq length_value_symbols zero_notin_symbols)
qed

lemma CipherFromKey_too_long: "36 \<le> length k \<Longrightarrow> CipherFromKey k leading0 = Inl (Error KeyTooLong)"
  by (simp add: CipherFromKey_def)

lemma CipherFromKey_duplicate:
  "length k < 36 \<Longrightarrow> \<not> distinct (runes k) \<Longrightarrow> CipherFromKey k leading0 = Inl (Error DuplicateKeyLetter)"
  by (simp add: CipherFromKey_def collect_letters_eq)

lemma CipherFromKey_panic:
  assumes "length k < 36" "distinct (runes k)" "length (runes k) < length k"
  shows "CipherFromKey k leading0 = Inl (Panic IndexOutOfRange)"
proof -
  obtain ns where ns: "MakeNumbers (int (length k)) leading0 = Inr ns"
    using MakeNumbers_props[of "int (length k)" leading0] assms(1) by auto
  have "\<not> (\<exists>m'. fill_maps [0..<length k] (runes k) ns (Map.empty, Map.empty) = Inr m')"
    using fill_maps_dom[of "[0..<length k]" "runes k" ns] assms(3)
    by (metis atLeastLessThan_iff set_upt zero_le less_irrefl)
  then have "fill_maps [0..<length k] (runes k) ns (Map.empty, Map.empty) = Inl (Panic IndexOutOfRange)"
    using fill_maps_panic[of "[0..<length k]" "runes k" ns]
    by (cases "fill_maps [0..<length k] (runes k) ns (Map.empty, Map.empty)") auto
  then show ?thesis
    using assms ns by (simp add: CipherFromKey_def collect_letters_eq)
qed

lemma CipherFromKey_ok:
  assumes "length k < 36" "distinct (runes k)" "length (runes k) = length k"
  shows "\<exists>c ns. CipherFromKey k leading0 = Inr c \<and> MakeNumbers (int (length k)) leading0 = Inr ns
     \<and> base c = int (length k)
     \<and> dom (letterToNumber c) = set (runes k)
     \<and> dom (numberToLetter c) = set (take (length k) ns)
     \<and> (\<forall>i<length k. letterToNumber c (runes k ! i) = Some (ns ! i)
                     \<and> numberToLetter c (ns ! i) = Some (runes k ! i))"
proof -
  obtain ns where ns: "MakeNumbers (int (length k)) leading0 = Inr ns"
      and len: "length k \<le> length ns" and dist: "distinct ns"
    using MakeNumbers_props[of "int (length k)" leading0] assms(1) by auto
  obtain m where m: "fill_maps [0..<length k] (runes k) ns (Map.empty, Map.empty) = Inr m"
    using fill_maps_ok[of "[0..<length k]" "runes k" ns "(Map.empty, Map.empty)"] assms(3) len
    by auto
  let ?c = "\<lparr>letterToNumber = fst m, numberToLetter = snd m, base = int (length k)\<rparr>"
  have c: "CipherFromKey k leading0 = Inr ?c"
    using assms ns m by (simp add: CipherFromKey_def collect_letters_eq)
  have d1: "dom (fst m) = set (runes k)"
  proof -
    have "(\<lambda>i. runes k ! i) ` {0..<length k} = set (runes k)"
      using assms(3) nth_image[of "length k" "runes k"] by simp
    then show ?thesis using fill_maps_dom[OF m] by simp
  qed
  have d2: "dom (snd m) = set (take (length k) ns)"
  proof -
    have "(\<lambda>i. ns ! i) ` {0..<length k} = set (take (length k) ns)"
      using len nth_image[of "length k" ns] by simp
    then show ?thesis using fill_maps_dom[OF m] by simp
  qed
  have i1: "inj_on (\<lambda>i. runes k ! i) (set [0..<length k])"
    using assms(2,3) by (auto simp: inj_on_def nth_eq_iff_index_eq)
  have i2: "inj_on (\<lambda>i. ns ! i) (set [0..<length k])"
    using dist len by (auto simp: inj_on_def nth_eq_iff_index_eq)
  have "\<forall>i<length k. fst m (runes k ! i) = Some (ns ! i) \<and> snd m (ns ! i) = Some (runes k ! i)"
    using fill_maps_lookup[OF m _ i1 i2] by simp
  then show ?thesis using c ns d1 d2 by auto
qed

lemma CipherFromKey_Inr_iff:
  "(\<exists>c. CipherFromKey k leading0 = Inr c)
     \<longleftrightarrow> length k < 36 \<and> distinct (runes k) \<and> length (runes k) = length k"
proof
  assume "\<exists>c. CipherFromKey k leading0 = Inr c"
  then obtain c where c: "CipherFromKey k leading0 = Inr c" ..
  have 1: "length k < 36" using c CipherFromKey_too_long[of k leading0] by (cases "length k < 36") auto
  have 2: "distinct (runes k)" using c 1 CipherFromKey_duplicate[of k leading0] by (cases "distinct (runes k)") auto
  have 3: "length (runes k) = length k"
    using c 1 2 CipherFromKey_panic[of k leading0] length_runes_le[of k]
    by (cases "length (runes k) < length k") auto
  show "length k < 36 \<and> distinct (runes k) \<and> length (runes k) = length k" using 1 2 3 by simp
next
  assume "length k < 36 \<and> distinct (runes k) \<and> length (runes k) = length k"
  then show "\<exists>c. CipherFromKey k leading0 = Inr c" using CipherFromKey_ok[of k leading0] by blast
qed

text \<open>
  Whenever \<open>CipherFromKey\<close> succeeds, every letter of the key is one byte wide (or the
  replacement rune of an invalid byte), and encoding then decoding a letter of the key
  gives the letter back.
\<close>

lemma decode_rune_cases:
  assumes "s \<noteq> []"
  shows "(of_char (hd s) < (0x80::nat) \<and> decode_rune s = (int (of_char (hd s)), 1))
       \<or> decode_rune s = (RuneError, 1)
       \<or> (2 \<le> snd (decode_rune s) \<and> snd (decode_rune s) \<le> length s)"
proof -
  obtain c0 t where s: "s = c0 # t" using assms by (cases s) auto
  let ?b0 = "of_char c0 :: nat"
  show ?thesis
  proof (cases "?b0 < 0x80")
    case True
    then show ?thesis by (simp add: s decode_rune_def)
  next
    case False
    show ?thesis
    proof (cases "?b0 < 0xC2 \<or> 0xF4 < ?b0")
      case True
      then show ?thesis using False by (simp add: s decode_rune_def)
    next
      case mid: False
      show ?thesis
        using False mid unfolding s decode_rune_def Let_def
        by (simp add: Suc_le_eq split: if_splits)
    qed
  qed
qed

lemma runes_one_byte_each:
  "length (runes s) = length s \<Longrightarrow> r \<in> set (runes s) \<Longrightarrow> (0 \<le> r \<and> r < 0x80) \<or> r = RuneError"
proof (induction s rule: runes.induct)
  case (1 s)
  show ?case
  proof (cases "s = []")
    case True
    then show ?thesis using "1.prems" by (simp add: runes.simps)
  next
    case False
    let ?w = "snd (decode_rune s)"
    note dc = decode_rune_cases[OF False]
    have w: "1 \<le> ?w" "?w \<le> length s"
      using dc False by (auto simp add: Suc_le_eq)
    have eq: "runes s = fst (decode_rune s) # runes (drop ?w s)"
      using False by (subst runes.simps) simp
    have le: "length (runes (drop ?w s)) \<le> length s - ?w"
      using length_runes_le[of "drop ?w s"] by simp
    have len: "Suc (length (runes (drop ?w s))) = length s"
      using "1.prems"(1) eq by simp
    have w1: "?w = 1" using len le w by arith
    then have rest: "length (runes (drop ?w s)) = length (drop ?w s)"
      using len by simp
    show ?thesis
    proof (cases "r = fst (decode_rune s)")
      case True
      then show ?thesis using dc w1 by auto
    next
      case other: False
      then have "r \<in> set (runes (drop ?w s))" using "1.prems"(2) eq by simp
      then show ?thesis using "1.IH"[OF False rest] by simp
    qed
  qed
qed

lemma runes_encode_rune_ascii: "0 \<le> r \<Longrightarrow> r < 0x80 \<Longrightarrow> runes (encode_rune r) = [r]"
proof -
  assume r: "0 \<le> r" "r < 0x80"
  then have e: "encode_rune r = [char_of (nat r)]" by (simp add: encode_rune_def)
  have "(of_char (char_of (nat r)) :: nat) = nat r" using r by simp
  moreover have "nat r < 0x80" using r by simp
  ultimately have "decode_rune [char_of (nat r)] = (r, 1)"
    using r by (simp add: decode_rune_def Let_def)
  then show ?thesis
    unfolding e by (subst runes.simps) (simp add: runes.simps)
qed

lemma runes_encode_rune_error: "runes (encode_rune RuneError) = [RuneError]"
  by (simp add: encode_rune_def RuneError_def runes.simps decode_rune_def)

lemma CipherFromKey_round_trip:
  assumes c: "CipherFromKey k leading0 = Inr c" and r: "r \<in> set (runes k)"
  shows "map_index (numberToLetter c) (map_index (letterToNumber c) r) = r"
    and "FromNumbers c (FromLetters c (string_of_runes [r])) = string_of_runes [r]"
proof -
  have ok: "length k < 36" "distinct (runes k)" "length (runes k) = length k"
    using c CipherFromKey_Inr_iff[of k leading0] by blast+
  obtain ns where ns: "MakeNumbers (int (length k)) leading0 = Inr ns"
    and look: "\<forall>i<length k. letterToNumber c (runes k ! i) = Some (ns ! i)
                     \<and> numberToLetter c (ns ! i) = Some (runes k ! i)"
    using CipherFromKey_ok[OF ok, of leading0] c by auto
  obtain i where i: "i < length k" "runes k ! i = r"
    using r ok(3) by (metis in_set_conv_nth)
  have l2n: "map_index (letterToNumber c) r = ns ! i"
    using look i by (auto simp add: map_index_def)
  then show rt: "map_index (numberToLetter c) (map_index (letterToNumber c) r) = r"
    using look i by (auto simp add: map_index_def)
  have k1: "1 \<le> int (length k)" using i(1) by simp
  obtain ns' where "MakeNumbers (int (length k)) leading0 = Inr ns'" "length ns' = length k"
      "set ns' = insert 0x30 (set (value_symbols (int (length k) - 1)))"
    using MakeNumbers_props[of "int (length k)" leading0] ok(1) k1 by auto
  then have nsl: "length ns = length k"
    and nss: "set ns = insert 0x30 (set (value_symbols (int (length k) - 1)))"
    using ns by simp_all
  have "ns ! i \<in> set ns" using i(1) nsl by simp
  then have "ns ! i = 0x30 \<or> ns ! i \<in> set (map of_char ''123456789abcdefghijklmnopqrstuvwxyz'')"
    unfolding nss value_symbols_def by (auto dest: in_set_takeD)
  then have asc: "0 \<le> ns ! i \<and> ns ! i < 0x80" by auto
  have rr: "runes (encode_rune r) = [r]"
    using runes_one_byte_each[OF ok(3) r] runes_encode_rune_ascii[of r] runes_encode_rune_error
    by auto
  have "FromLetters c (string_of_runes [r]) = encode_rune (ns ! i)"
    using rr l2n by (simp add: FromLetters_def string_of_runes_def)
  moreover have "runes (encode_rune (ns ! i)) = [ns ! i]"
    using asc by (intro runes_encode_rune_ascii) simp_all
  ultimately show "FromNumbers c (FromLetters c (string_of_runes [r])) = string_of_runes [r]"
    using rt l2n by (simp add: FromNumbers_def string_of_runes_def)
qed

text \<open>
  C3. A key whose symbols are pairwise distinct and whose length is below 36 should give
  a cipher whose two maps are inverse to each other. The round trip holds whenever the
  cipher is built (\<open>CipherFromKey_round_trip\<close>), but the cipher is not always built: the
  key \<open>\<acute>e\<close> (U+00E9) is one symbol in two bytes, so \<open>len(k)\<close> is 2 while the range loop
  collects one letter, and the loop \<open>for i := range length\<close> reads \<open>letters[1]\<close>, which
  panics.
\<close>

theorem CipherFromKey_two_byte_symbol:
  "length [CHR 0xC3, CHR 0xA9] < 36 \<and> runes [CHR 0xC3, CHR 0xA9] = [0xE9]
   \<and> CipherFromKey [CHR 0xC3, CHR 0xA9] leading0 = Inl (Panic IndexOutOfRange)"
proof -
  have r: "runes [CHR 0xC3, CHR 0xA9] = [0xE9]"
    by (simp add: runes.simps decode_rune_def)
  then show ?thesis
    using CipherFromKey_panic[of "[CHR 0xC3, CHR 0xA9]" leading0] by simp
qed

text \<open>
  C4. \<open>CipherFromKey\<close> should fail only for a key of 36 bytes or more or with a repeated
  letter. The key \<open>k\<acute>e\<close> has three bytes and two distinct letters, and the call
  fails all the same, by the panic of C3 and not by one of the two errors. (The errors
  themselves are as claimed: \<open>CipherFromKey_too_long\<close>, \<open>CipherFromKey_duplicate\<close>.)
\<close>

theorem CipherFromKey_fails_without_error:
  "length [CHR ''k'', CHR 0xC3, CHR 0xA9] < 36 \<and> distinct (runes [CHR ''k'', CHR 0xC3, CHR 0xA9])
   \<and> CipherFromKey [CHR ''k'', CHR 0xC3, CHR 0xA9] leading0 = Inl (Panic IndexOutOfRange)"
proof -
  have r: "runes [CHR ''k'', CHR 0xC3, CHR 0xA9] = [0x6B, 0xE9]"
    by (simp add: runes.simps decode_rune_def)
  then show ?thesis
    using CipherFromKey_panic[of "[CHR ''k'', CHR 0xC3, CHR 0xA9]" leading0] by simp
qed

section \<open>FromLetters and FromNumbers\<close>

text \<open>
  Reading back as runes the string written for a rune slice gives the slice again, with
  U+FFFD for every value that is no code point.
\<close>

lemma of_char_byte: "x < 256 \<Longrightarrow> (of_char (char_of x) :: nat) = x" for x :: nat
  by simp

lemma decode_one:
  fixes x :: nat
  assumes "x < 0x80"
  shows "decode_rune (char_of x # t) = (int x, 1)"
  using assms by (simp add: decode_rune_def Let_def)

lemma decode_two:
  fixes x y :: nat
  assumes "0xC2 \<le> x" "x < 0xE0" "0x80 \<le> y" "y \<le> 0xBF"
  shows "decode_rune (char_of x # char_of y # t) = (int ((x mod 0x20) * 0x40 + y mod 0x40), 2)"
  using assms by (simp add: decode_rune_def Let_def)

lemma decode_three:
  fixes x y z :: nat
  assumes "0xE0 \<le> x" "x < 0xF0" "0x80 \<le> y" "y \<le> 0xBF" "0x80 \<le> z" "z \<le> 0xBF"
    and "x = 0xE0 \<Longrightarrow> 0xA0 \<le> y" and "x = 0xED \<Longrightarrow> y \<le> 0x9F"
  shows "decode_rune (char_of x # char_of y # char_of z # t)
           = (int ((x mod 0x10) * 0x1000 + (y mod 0x40) * 0x40 + z mod 0x40), 3)"
  using assms by (auto simp add: decode_rune_def Let_def)

lemma decode_four:
  fixes x y z u :: nat
  assumes "0xF0 \<le> x" "x \<le> 0xF4" "0x80 \<le> y" "y \<le> 0xBF" "0x80 \<le> z" "z \<le> 0xBF"
    and "0x80 \<le> u" "u \<le> 0xBF"
    and "x = 0xF0 \<Longrightarrow> 0x90 \<le> y" and "x = 0xF4 \<Longrightarrow> y \<le> 0x8F"
  shows "decode_rune (char_of x # char_of y # char_of z # char_of u # t)
           = (int ((x mod 0x08) * 0x40000 + (y mod 0x40) * 0x1000 + (z mod 0x40) * 0x40
                   + u mod 0x40), 4)"
  using assms by (auto simp add: decode_rune_def Let_def)


lemma mod_shift:
  fixes b q c :: nat
  assumes "b mod c = 0" "q < c"
  shows "(b + q) mod c = q"
proof -
  have "(b + q) mod c = (b mod c + q) mod c" by (simp add: mod_add_left_eq)
  then show ?thesis using assms by simp
qed

lemma split2: "(n div 0x40) * 0x40 + n mod 0x40 = n" for n :: nat
  by simp

lemma split3: "(n div 0x1000) * 0x1000 + (n div 0x40 mod 0x40) * 0x40 + n mod 0x40 = n"
  for n :: nat
proof -
  have "n mod (0x40 * 0x40) = 0x40 * (n div 0x40 mod 0x40) + n mod 0x40"
    by (rule mod_mult2_eq)
  then have "n mod 0x1000 = (n div 0x40 mod 0x40) * 0x40 + n mod 0x40"
    by (simp add: mult.commute)
  moreover have "(n div 0x1000) * 0x1000 + n mod 0x1000 = n" by simp
  ultimately show ?thesis by linarith
qed

lemma split4:
  "(n div 0x40000) * 0x40000 + (n div 0x1000 mod 0x40) * 0x1000
     + (n div 0x40 mod 0x40) * 0x40 + n mod 0x40 = n" for n :: nat
proof -
  have "n mod (0x1000 * 0x40) = 0x1000 * (n div 0x1000 mod 0x40) + n mod 0x1000"
    by (rule mod_mult2_eq)
  then have a: "n mod 0x40000 = (n div 0x1000 mod 0x40) * 0x1000 + n mod 0x1000"
    by (simp add: mult.commute)
  have "n mod (0x40 * 0x40) = 0x40 * (n div 0x40 mod 0x40) + n mod 0x40"
    by (rule mod_mult2_eq)
  then have b: "n mod 0x1000 = (n div 0x40 mod 0x40) * 0x40 + n mod 0x40"
    by (simp add: mult.commute)
  have "(n div 0x40000) * 0x40000 + n mod 0x40000 = n" by simp
  then show ?thesis using a b by linarith
qed

lemma low6: "(0x80 + m mod 0x40) mod 0x40 = m mod 0x40" for m :: nat
  by (rule mod_shift) simp_all

lemma cont_byte: "0x80 \<le> 0x80 + m mod 0x40 \<and> 0x80 + m mod 0x40 \<le> 0xBF" for m :: nat
proof -
  have "m mod 0x40 < 0x40" by simp
  then show ?thesis by linarith
qed

lemma lead2:
  fixes n :: nat
  assumes "0x80 \<le> n" "n \<le> 0x7FF"
  shows "0xC2 \<le> 0xC0 + n div 0x40" "0xC0 + n div 0x40 < 0xE0"
    "(0xC0 + n div 0x40) mod 0x20 = n div 0x40"
proof -
  have q: "2 \<le> n div 0x40" "n div 0x40 < 0x20" using assms by arith+
  then show "0xC2 \<le> 0xC0 + n div 0x40" "0xC0 + n div 0x40 < 0xE0" by linarith+
  show "(0xC0 + n div 0x40) mod 0x20 = n div 0x40"
    using q(2) by (intro mod_shift) simp_all
qed

lemma lead3:
  fixes n :: nat
  assumes "0x800 \<le> n" "n \<le> 0xFFFF"
  shows "0xE0 \<le> 0xE0 + n div 0x1000" "0xE0 + n div 0x1000 < 0xF0"
    "(0xE0 + n div 0x1000) mod 0x10 = n div 0x1000"
    "0xE0 + n div 0x1000 = 0xE0 \<Longrightarrow> 0xA0 \<le> 0x80 + n div 0x40 mod 0x40"
    "\<not> (0xD800 \<le> n \<and> n \<le> 0xDFFF) \<Longrightarrow> 0xE0 + n div 0x1000 = 0xED
       \<Longrightarrow> 0x80 + n div 0x40 mod 0x40 \<le> 0x9F"
proof -
  have q: "n div 0x1000 < 0x10" using assms by arith
  then show "0xE0 \<le> 0xE0 + n div 0x1000" "0xE0 + n div 0x1000 < 0xF0" by linarith+
  show "(0xE0 + n div 0x1000) mod 0x10 = n div 0x1000"
    using q by (intro mod_shift) simp_all
  show "0xA0 \<le> 0x80 + n div 0x40 mod 0x40" if "0xE0 + n div 0x1000 = 0xE0"
  proof -
    have "n div 0x1000 = 0" using that by simp
    then have "n < 0x1000" by arith
    then have k: "0x20 \<le> n div 0x40" "n div 0x40 < 0x40" using assms(1) by arith+
    then have "n div 0x40 mod 0x40 = n div 0x40" by simp
    then show ?thesis using k by linarith
  qed
  show "0x80 + n div 0x40 mod 0x40 \<le> 0x9F"
    if "\<not> (0xD800 \<le> n \<and> n \<le> 0xDFFF)" "0xE0 + n div 0x1000 = 0xED"
  proof -
    have "n div 0x1000 = 0xD" using that(2) by simp
    then have "0xD000 \<le> n" "n < 0xE000" by arith+
    then have "0xD000 \<le> n" "n < 0xD800" using that(1) by linarith+
    then have k: "0x340 \<le> n div 0x40" "n div 0x40 < 0x360" by arith+
    define j where "j = n div 0x40 - 0x340"
    have j: "n div 0x40 = 0x340 + j" "j < 0x20" using k by (simp_all add: j_def)
    have "(0x340 + j) mod 0x40 = j" using j(2) by (intro mod_shift) simp_all
    then show ?thesis using j by simp
  qed
qed

lemma lead4:
  fixes n :: nat
  assumes "0x10000 \<le> n" "n \<le> 0x10FFFF"
  shows "0xF0 \<le> 0xF0 + n div 0x40000" "0xF0 + n div 0x40000 \<le> 0xF4"
    "(0xF0 + n div 0x40000) mod 0x08 = n div 0x40000"
    "0xF0 + n div 0x40000 = 0xF0 \<Longrightarrow> 0x90 \<le> 0x80 + n div 0x1000 mod 0x40"
    "0xF0 + n div 0x40000 = 0xF4 \<Longrightarrow> 0x80 + n div 0x1000 mod 0x40 \<le> 0x8F"
proof -
  have q: "n div 0x40000 \<le> 4" using assms by arith
  then show "0xF0 \<le> 0xF0 + n div 0x40000" "0xF0 + n div 0x40000 \<le> 0xF4" by linarith+
  show "(0xF0 + n div 0x40000) mod 0x08 = n div 0x40000"
    using q by (intro mod_shift) simp_all
  show "0x90 \<le> 0x80 + n div 0x1000 mod 0x40" if "0xF0 + n div 0x40000 = 0xF0"
  proof -
    have "n div 0x40000 = 0" using that by simp
    then have "n < 0x40000" by arith
    then have k: "0x10 \<le> n div 0x1000" "n div 0x1000 < 0x40" using assms(1) by arith+
    then have "n div 0x1000 mod 0x40 = n div 0x1000" by simp
    then show ?thesis using k by linarith
  qed
  show "0x80 + n div 0x1000 mod 0x40 \<le> 0x8F" if "0xF0 + n div 0x40000 = 0xF4"
  proof -
    have k: "0x100 \<le> n div 0x1000" "n div 0x1000 < 0x110" using assms that by arith+
    define j where "j = n div 0x1000 - 0x100"
    have j: "n div 0x1000 = 0x100 + j" "j < 0x10" using k by (simp_all add: j_def)
    have "(0x100 + j) mod 0x40 = j" using j(2) by (intro mod_shift) simp_all
    then show ?thesis using j by simp
  qed
qed

lemma decode_encode_rune:
  "decode_rune (encode_rune r @ t) = (code_point r, length (encode_rune r))"
proof -
  define n where "n = nat r"
  consider (cbad) "r < 0 \<or> 0x10FFFF < r \<or> (0xD800 \<le> r \<and> r \<le> 0xDFFF)"
    | (c1) "0 \<le> r" "r \<le> 0x7F"
    | (c2) "0x7F < r" "r \<le> 0x7FF"
    | (c3) "0x7FF < r" "r \<le> 0xFFFF" "\<not> (0xD800 \<le> r \<and> r \<le> 0xDFFF)"
    | (c4) "0xFFFF < r" "r \<le> 0x10FFFF"
    by linarith
  then show ?thesis
  proof cases
    case cbad
    have e: "encode_rune r = [char_of (0xEF::nat), char_of (0xBF::nat), char_of (0xBD::nat)]"
      using cbad by (simp add: encode_rune_def)
    have p: "code_point r = 0xFFFD"
      using cbad by (simp add: code_point_def RuneError_def)
    have "decode_rune (char_of (0xEF::nat) # char_of (0xBF::nat) # char_of (0xBD::nat) # t)
            = (int ((0xEF mod 0x10) * 0x1000 + (0xBF mod 0x40) * 0x40 + 0xBD mod 0x40), 3)"
      by (rule decode_three) simp_all
    then show ?thesis
      by (simp add: e p)
  next
    case c1
    have e: "encode_rune r = [char_of n]"
      using c1 by (simp add: encode_rune_def n_def)
    have p: "code_point r = r"
      using c1 by (simp add: code_point_def)
    have n: "n < 0x80" "int n = r" using c1 by (simp_all add: n_def)
    have "decode_rune (char_of n # t) = (int n, 1)"
      using n(1) by (rule decode_one)
    then show ?thesis
      by (simp add: e p n(2))
  next
    case c2
    have n: "0x80 \<le> n" "n \<le> 0x7FF" "int n = r" using c2 by (simp_all add: n_def)
    let ?x = "0xC0 + n div 0x40" and ?y = "0x80 + n mod 0x40"
    have e: "encode_rune r = [char_of ?x, char_of ?y]"
      using c2 by (simp add: encode_rune_def n_def)
    have p: "code_point r = r"
      using c2 by (simp add: code_point_def)
    note x = lead2[OF n(1,2)]
    have y: "0x80 \<le> ?y" "?y \<le> 0xBF" using cont_byte[of n] by simp_all
    have val: "(?x mod 0x20) * 0x40 + ?y mod 0x40 = n"
      unfolding x(3) low6 by (rule split2)
    have "decode_rune (char_of ?x # char_of ?y # t)
            = (int ((?x mod 0x20) * 0x40 + ?y mod 0x40), 2)"
      using x(1,2) y by (rule decode_two)
    then have "decode_rune (char_of ?x # char_of ?y # t) = (r, 2)"
      unfolding val n(3) .
    then show ?thesis
      by (simp add: e p)
  next
    case c3
    have n: "0x800 \<le> n" "n \<le> 0xFFFF" "\<not> (0xD800 \<le> n \<and> n \<le> 0xDFFF)" "int n = r"
      using c3 unfolding n_def by linarith+
    let ?x = "0xE0 + n div 0x1000" and ?y = "0x80 + n div 0x40 mod 0x40"
      and ?z = "0x80 + n mod 0x40"
    have e: "encode_rune r = [char_of ?x, char_of ?y, char_of ?z]"
      using c3 by (auto simp add: encode_rune_def n_def)
    have p: "code_point r = r"
      using c3 by (auto simp add: code_point_def)
    note x = lead3[OF n(1,2)]
    have y: "0x80 \<le> ?y" "?y \<le> 0xBF" using cont_byte[of "n div 0x40"] by simp_all
    have z: "0x80 \<le> ?z" "?z \<le> 0xBF" using cont_byte[of n] by simp_all
    have hi: "?x = 0xED \<Longrightarrow> ?y \<le> 0x9F" using x(5)[OF n(3)] .
    have val: "(?x mod 0x10) * 0x1000 + (?y mod 0x40) * 0x40 + ?z mod 0x40 = n"
      unfolding x(3) low6 mod_mod_trivial by (rule split3)
    have "decode_rune (char_of ?x # char_of ?y # char_of ?z # t)
            = (int ((?x mod 0x10) * 0x1000 + (?y mod 0x40) * 0x40 + ?z mod 0x40), 3)"
      using x(1,2) y z x(4) hi by (rule decode_three)
    then have "decode_rune (char_of ?x # char_of ?y # char_of ?z # t) = (r, 3)"
      unfolding val n(4) .
    then show ?thesis
      by (simp add: e p)
  next
    case c4
    have n: "0x10000 \<le> n" "n \<le> 0x10FFFF" "int n = r"
      using c4 by (simp_all add: n_def)
    let ?x = "0xF0 + n div 0x40000" and ?y = "0x80 + n div 0x1000 mod 0x40"
      and ?z = "0x80 + n div 0x40 mod 0x40" and ?u = "0x80 + n mod 0x40"
    have e: "encode_rune r = [char_of ?x, char_of ?y, char_of ?z, char_of ?u]"
      using c4 by (simp add: encode_rune_def n_def)
    have p: "code_point r = r"
      using c4 by (simp add: code_point_def)
    note x = lead4[OF n(1,2)]
    have y: "0x80 \<le> ?y" "?y \<le> 0xBF" using cont_byte[of "n div 0x1000"] by simp_all
    have z: "0x80 \<le> ?z" "?z \<le> 0xBF" using cont_byte[of "n div 0x40"] by simp_all
    have u: "0x80 \<le> ?u" "?u \<le> 0xBF" using cont_byte[of n] by simp_all
    have val: "(?x mod 0x08) * 0x40000 + (?y mod 0x40) * 0x1000 + (?z mod 0x40) * 0x40
                 + ?u mod 0x40 = n"
      unfolding x(3) low6 mod_mod_trivial by (rule split4)
    have "decode_rune (char_of ?x # char_of ?y # char_of ?z # char_of ?u # t)
            = (int ((?x mod 0x08) * 0x40000 + (?y mod 0x40) * 0x1000 + (?z mod 0x40) * 0x40
                    + ?u mod 0x40), 4)"
      using x(1,2) y z u x(4,5) by (rule decode_four)
    then have "decode_rune (char_of ?x # char_of ?y # char_of ?z # char_of ?u # t) = (r, 4)"
      unfolding val n(3) .
    then show ?thesis
      by (simp add: e p)
  qed
qed

lemma encode_rune_nonempty: "encode_rune r \<noteq> []"
  by (simp add: encode_rune_def)

lemma runes_encode_rune_append: "runes (encode_rune r @ t) = code_point r # runes t"
proof -
  have "encode_rune r @ t \<noteq> []" using encode_rune_nonempty by simp
  then have "runes (encode_rune r @ t) =
      fst (decode_rune (encode_rune r @ t))
        # runes (drop (snd (decode_rune (encode_rune r @ t))) (encode_rune r @ t))"
    by (subst runes.simps) simp
  then show ?thesis by (simp add: decode_encode_rune)
qed

lemma runes_string_of_runes: "runes (string_of_runes rs) = map code_point rs"
proof (induction rs)
  case Nil
  then show ?case by (simp add: string_of_runes_def runes.simps)
next
  case (Cons r rs)
  have "string_of_runes (r # rs) = encode_rune r @ string_of_runes rs"
    by (simp add: string_of_runes_def)
  then show ?case using Cons by (simp add: runes_encode_rune_append)
qed

text \<open>
  C5, as amended. \<open>FromLetters\<close> and \<open>FromNumbers\<close> return a string for every input and
  report no error. Every symbol of the input is translated in its place: a symbol that the
  cipher's map holds to the encoding of its value, and any other symbol to the rune 0,
  written as the single byte 0. The result is the concatenation of these pieces in the
  order of the input; read back as runes it has one rune for each symbol of the input,
  the rune 0 where the symbol is outside the domain and the mapped value elsewhere.
\<close>

theorem unmapped_symbol_in_place:
  "FromLetters c s =
     concat (map (\<lambda>l. case letterToNumber c l of
                          None \<Rightarrow> [CHR 0x00] | Some v \<Rightarrow> encode_rune v) (runes s))
   \<and> FromNumbers c s =
     concat (map (\<lambda>n. case numberToLetter c n of
                          None \<Rightarrow> [CHR 0x00] | Some v \<Rightarrow> encode_rune v) (runes s))
   \<and> runes (FromLetters c s) =
     map (\<lambda>l. case letterToNumber c l of None \<Rightarrow> 0 | Some v \<Rightarrow> code_point v) (runes s)
   \<and> runes (FromNumbers c s) =
     map (\<lambda>n. case numberToLetter c n of None \<Rightarrow> 0 | Some v \<Rightarrow> code_point v) (runes s)"
proof -
  have zero: "encode_rune 0 = [CHR 0x00]"
    by (simp add: encode_rune_def char_of_eq_iff)
  have bytes: "encode_rune (map_index m x) =
      (case m x of None \<Rightarrow> [CHR 0x00] | Some v \<Rightarrow> encode_rune v)" for m x
    by (simp add: map_index_def zero split: option.split)
  have point: "code_point (map_index m x) =
      (case m x of None \<Rightarrow> 0 | Some v \<Rightarrow> code_point v)" for m x
    by (simp add: map_index_def code_point_def split: option.split)
  have "FromLetters c s =
     concat (map (\<lambda>l. case letterToNumber c l of
                          None \<Rightarrow> [CHR 0x00] | Some v \<Rightarrow> encode_rune v) (runes s))"
    by (simp add: FromLetters_def string_of_runes_def comp_def bytes)
  moreover have "FromNumbers c s =
     concat (map (\<lambda>n. case numberToLetter c n of
                          None \<Rightarrow> [CHR 0x00] | Some v \<Rightarrow> encode_rune v) (runes s))"
    by (simp add: FromNumbers_def string_of_runes_def comp_def bytes)
  moreover have "runes (FromLetters c s) =
     map (\<lambda>l. case letterToNumber c l of None \<Rightarrow> 0 | Some v \<Rightarrow> code_point v) (runes s)"
    by (simp add: FromLetters_def runes_string_of_runes comp_def point)
  moreover have "runes (FromNumbers c s) =
     map (\<lambda>n. case numberToLetter c n of None \<Rightarrow> 0 | Some v \<Rightarrow> code_point v) (runes s)"
    by (simp add: FromNumbers_def runes_string_of_runes comp_def point)
  ultimately show ?thesis by simp
qed

theorem unmapped_symbol_in_place_witness:
  "runes ''az'' = [0x61, 0x7A] \<and> letterToNumber cipher_ab 0x7A = None
   \<and> FromLetters cipher_ab ''az'' = [CHR ''1'', CHR 0x00]
   \<and> runes (FromLetters cipher_ab ''az'') = [0x31, 0]
   \<and> runes ''17'' = [0x31, 0x37] \<and> numberToLetter cipher_ab 0x37 = None
   \<and> FromNumbers cipher_ab ''17'' = [CHR ''a'', CHR 0x00]
   \<and> runes (FromNumbers cipher_ab ''17'') = [0x61, 0]"
proof -
  have r: "runes ''az'' = [0x61, 0x7A]" "runes ''17'' = [0x31, 0x37]"
    by (simp_all add: runes.simps decode_rune_def)
  have e: "encode_rune 0x31 = ''1''" "encode_rune 0x61 = ''a''"
    by (simp_all add: encode_rune_def char_of_eq_iff)
  show ?thesis
    using unmapped_symbol_in_place[of cipher_ab "''az''"]
      unmapped_symbol_in_place[of cipher_ab "''17''"]
    by (simp add: r e cipher_ab_def code_point_def runes.simps decode_rune_def)
qed

text \<open>
  With the cipher of the key \<open>ab\<close>, the letter \<open>z\<close> and the value-symbol \<open>7\<close> are outside
  the two domains; both calls return a string all the same, with the byte 0 in the place
  of the unmapped symbol.
\<close>

theorem unmapped_symbol_counterexample:
  "CipherFromKey ''ab'' False = Inr cipher_ab
   \<and> FromLetters cipher_ab ''az'' = [CHR ''1'', CHR 0x00]
   \<and> FromNumbers cipher_ab ''17'' = [CHR ''a'', CHR 0x00]"
  by (simp add: CipherFromKey_def MakeNumbers_def for_range_def cipher_ab_def
      FromLetters_def FromNumbers_def runes.simps decode_rune_def
      string_of_runes_def map_index_def encode_rune_def char_of_eq_iff)

section \<open>FindValidSums on a bound that is not positive\<close>

text \<open>
  C2. With \<open>maxSum = 0\<close> nothing is emitted and the call returns. With a negative
  \<open>maxSum\<close> the call \<open>make([]Word, maxSum)\<close> panics before any loop runs, in both
  versions of the function.
\<close>

theorem FindValidSums_negative_bound:
  "emitted c 0 wl = Inr [] \<and> FindValidSums_slice c 0 wl = Inr []
   \<and> emitted c (- 1) wl = Inl (Panic MakesliceLenOutOfRange)
   \<and> FindValidSums_slice c (- 1) wl = Inl (Panic MakesliceLenOutOfRange)"
  by (simp add: emitted_def FindValidSums_def FindValidSums_slice_def scan_all_def)

section \<open>Formatting and parsing are inverse to each other\<close>

lemma digits_nth:
  "d < 36 \<Longrightarrow> (of_char (digits ! d) :: nat) = (if d < 10 then 0x30 + d else 0x57 + d)"
  by (simp add: digits_def nth_Cons')

lemma lower_letter: "0x60 \<le> x \<Longrightarrow> x < 0x80 \<Longrightarrow> lower x = x"
proof -
  assume "0x60 \<le> x" "x < 0x80"
  then have "x div 0x20 = 3" by simp
  then show ?thesis by (simp add: lower_def)
qed

lemma digit_value_digits: "d < 36 \<Longrightarrow> digit_value (digits ! d) = Some d"
proof (cases "d < 10")
  case True
  assume "d < 36"
  then show ?thesis using True by (simp add: digit_value_def digits_nth)
next
  case False
  assume d: "d < 36"
  have "lower (0x57 + d) = 0x57 + d"
    using d False by (intro lower_letter) simp_all
  then show ?thesis using d False by (simp add: digit_value_def digits_nth Let_def)
qed

lemma fmt_digits_chars:
  "2 \<le> b \<Longrightarrow> c \<in> set (fmt_digits b u) \<Longrightarrow> \<exists>d<b. c = digits ! d"
proof (induction b u rule: fmt_digits.induct)
  case (1 b u)
  show ?case
  proof (cases "b \<le> u")
    case True
    then have eq: "fmt_digits b u = fmt_digits b (u div b) @ [digits ! (u mod b)]"
      using "1.prems"(1) by (subst fmt_digits.simps) simp
    show ?thesis
    proof (cases "c \<in> set (fmt_digits b (u div b))")
      case True
      then show ?thesis using 1 \<open>b \<le> u\<close> by simp
    next
      case False
      then have "c = digits ! (u mod b)" using "1.prems"(2) eq by simp
      moreover have "u mod b < b" using "1.prems"(1) by simp
      ultimately show ?thesis by blast
    qed
  next
    case False
    then have "fmt_digits b u = [digits ! u]"
      by (subst fmt_digits.simps) simp
    then have "c = digits ! u" using "1.prems"(2) by simp
    moreover have "u < b" using False by simp
    ultimately show ?thesis by blast
  qed
qed

lemma fmt_digits_nonempty: "fmt_digits b u \<noteq> []"
  by (subst fmt_digits.simps) simp

lemma parse_digits_append:
  "parse_digits b n (xs @ ys) =
     (case parse_digits b n xs of Inl e \<Rightarrow> Inl e | Inr m \<Rightarrow> parse_digits b m ys)"
  by (induction xs arbitrary: n) (auto simp add: Let_def split: option.splits)

lemma parse_digits_step:
  assumes "2 \<le> b" "b \<le> 36" "d < b" "m * b + d \<le> maxUint64"
  shows "parse_digits b m [digits ! d] = Inr (m * b + d)"
proof -
  have dv: "digit_value (digits ! d) = Some d"
    using assms by (intro digit_value_digits) simp
  have mb: "m * b \<le> maxUint64" using assms(4) by simp
  then have cut: "\<not> m \<ge> maxUint64 div b + 1"
    using assms(1) by (simp add: less_eq_div_iff_mult_less_eq not_le less_Suc_eq_le)
  have lt: "m * b + d < 2 ^ 64" "m * b < 2 ^ 64"
    using assms(4) by (simp_all add: maxUint64_def)
  show ?thesis
    using dv cut lt assms(3,4) by (simp add: Let_def)
qed

lemma parse_fmt_digits:
  "2 \<le> b \<Longrightarrow> b \<le> 36 \<Longrightarrow> n * b ^ length (fmt_digits b u) + u \<le> maxUint64 \<Longrightarrow>
     parse_digits b n (fmt_digits b u) = Inr (n * b ^ length (fmt_digits b u) + u)"
proof (induction b u arbitrary: n rule: fmt_digits.induct)
  case (1 b u)
  show ?case
  proof (cases "b \<le> u")
    case True
    let ?q = "u div b" and ?r = "u mod b"
    let ?k = "length (fmt_digits b ?q)"
    have eq: "fmt_digits b u = fmt_digits b ?q @ [digits ! ?r]"
      using "1.prems"(1) True by (subst fmt_digits.simps) simp
    have split: "n * b ^ length (fmt_digits b u) + u = (n * b ^ ?k + ?q) * b + ?r"
      by (simp add: eq algebra_simps)
    have bound: "(n * b ^ ?k + ?q) * b + ?r \<le> maxUint64"
      using "1.prems"(3) split by simp
    have "n * b ^ ?k + ?q \<le> (n * b ^ ?k + ?q) * b"
      using "1.prems"(1) by simp
    then have "n * b ^ ?k + ?q \<le> maxUint64" using bound by linarith
    then have first: "parse_digits b n (fmt_digits b ?q) = Inr (n * b ^ ?k + ?q)"
      using "1.IH"[of n] "1.prems"(1,2) True by simp
    have "?r < b" using "1.prems"(1) by simp
    then have "parse_digits b (n * b ^ ?k + ?q) [digits ! ?r] = Inr ((n * b ^ ?k + ?q) * b + ?r)"
      using parse_digits_step[OF "1.prems"(1,2) _ bound] by simp
    then show ?thesis
      using first split by (simp add: eq parse_digits_append del: parse_digits.simps)
  next
    case False
    then have eq: "fmt_digits b u = [digits ! u]"
      by (subst fmt_digits.simps) simp
    have "u < b" using False by simp
    then show ?thesis
      using parse_digits_step[OF "1.prems"(1,2), of u n] "1.prems"(3) by (simp add: eq)
  qed
qed

lemma unsigned_value_fmt_digits:
  "2 \<le> b \<Longrightarrow> b \<le> 36 \<Longrightarrow> unsigned_value b (fmt_digits b u) = u"
proof (induction b u rule: fmt_digits.induct)
  case (1 b u)
  show ?case
  proof (cases "b \<le> u")
    case True
    have eq: "fmt_digits b u = fmt_digits b (u div b) @ [digits ! (u mod b)]"
      using "1.prems"(1) True by (subst fmt_digits.simps) simp
    have "u mod b < b" using "1.prems"(1) by simp
    then have "u mod b < 36" using "1.prems"(2) by linarith
    then have "digit_of (digits ! (u mod b)) = u mod b"
      by (simp add: digit_of_def digit_value_digits)
    moreover have "unsigned_value b (fmt_digits b (u div b)) = u div b"
      using 1 True by simp
    ultimately show ?thesis
      by (simp add: eq unsigned_value_def)
  next
    case False
    then have eq: "fmt_digits b u = [digits ! u]"
      by (subst fmt_digits.simps) simp
    have "u < 36" using False "1.prems" by simp
    then show ?thesis
      by (simp add: eq unsigned_value_def digit_of_def digit_value_digits)
  qed
qed

lemma sign_not_digit: "digit_value CHR ''-'' = None" "digit_value CHR ''+'' = None"
  by (simp_all add: digit_value_def lower_def)

lemma fmt_digits_hd:
  assumes "2 \<le> b" "b \<le> 36"
  shows "hd (fmt_digits b u) \<noteq> CHR ''-'' \<and> hd (fmt_digits b u) \<noteq> CHR ''+''"
proof -
  have "hd (fmt_digits b u) \<in> set (fmt_digits b u)"
    using fmt_digits_nonempty by simp
  then obtain d where "d < b" "hd (fmt_digits b u) = digits ! d"
    using fmt_digits_chars[OF assms(1)] by blast
  then have "digit_value (hd (fmt_digits b u)) = Some d"
    using assms(2) digit_value_digits[of d] by simp
  then show ?thesis using sign_not_digit by auto
qed

lemma ParseInt_format_int:
  assumes "2 \<le> b" "b \<le> 36" "- (2 ^ 63) \<le> i" "i < 2 ^ 63"
  shows "ParseInt (format_int i b) b = Inr i"
proof (cases "i < 0")
  case False
  let ?s = "fmt_digits (nat b) (nat i)"
  have b: "2 \<le> nat b" "nat b \<le> 36" using assms by simp_all
  have "nat i \<le> maxUint64" using assms(4) False by (simp add: maxUint64_def)
  then have "parse_digits (nat b) 0 ?s = Inr (nat i)"
    using parse_fmt_digits[OF b, of 0 "nat i"] by simp
  moreover have "\<not> nat i \<ge> 2 ^ 63" using assms(4) False by simp 
  ultimately show ?thesis
    using False assms(1,2) fmt_digits_hd[OF b, of "nat i"] fmt_digits_nonempty[of "nat b" "nat i"]
    by (simp add: ParseInt_def ParseUint_def format_int_def Let_def)
next
  case True
  let ?s = "fmt_digits (nat b) (nat (- i))"
  have b: "2 \<le> nat b" "nat b \<le> 36" using assms by simp_all
  have "nat (- i) \<le> maxUint64" using assms(3) True by (simp add: maxUint64_def)
  then have "parse_digits (nat b) 0 ?s = Inr (nat (- i))"
    using parse_fmt_digits[OF b, of 0 "nat (- i)"] by simp
  moreover have "\<not> nat (- i) > 2 ^ 63" using assms(3) True by simp
  ultimately show ?thesis
    using True assms(1,2) fmt_digits_nonempty[of "nat b" "nat (- i)"]
    by (simp add: ParseInt_def ParseUint_def format_int_def Let_def)
qed

lemma numeral_value_format_int:
  assumes "2 \<le> b" "b \<le> 36"
  shows "numeral_value b (format_int i b) = i"
proof (cases "i < 0")
  case False
  have b: "2 \<le> nat b" "nat b \<le> 36" using assms by simp_all
  obtain c t where ct: "fmt_digits (nat b) (nat i) = c # t"
    using fmt_digits_nonempty[of "nat b" "nat i"] by (cases "fmt_digits (nat b) (nat i)") auto
  then have "c \<noteq> CHR ''-''" "c \<noteq> CHR ''+''"
    using fmt_digits_hd[OF b, of "nat i"] by simp_all
  then have "numeral_value b (c # t) = int (unsigned_value (nat b) (c # t))"
    by (simp add: numeral_value_def unsigned_part_def)
  then show ?thesis
    using False unsigned_value_fmt_digits[OF b, of "nat i"] ct by (simp add: format_int_def)
next
  case True
  have b: "2 \<le> nat b" "nat b \<le> 36" using assms by simp_all
  show ?thesis
    using True unsigned_value_fmt_digits[OF b, of "nat (- i)"]
    by (simp add: format_int_def numeral_value_def)
qed

lemma foldl_value_mono:
  "1 \<le> b \<Longrightarrow> n \<le> foldl (\<lambda>n c. n * b + digit_of c) n ds" for b :: nat
proof (induction ds arbitrary: n)
  case Nil
  then show ?case by simp
next
  case (Cons c cs)
  have "n \<le> n * b + digit_of c" using Cons.prems by (simp add: trans_le_add1)
  also have "\<dots> \<le> foldl (\<lambda>n c. n * b + digit_of c) (n * b + digit_of c) cs"
    using Cons.IH[OF Cons.prems] .
  finally show ?case by simp
qed

lemma parse_digits_valid:
  "2 \<le> b \<Longrightarrow> list_all (is_digit_below b) ds \<Longrightarrow>
   foldl (\<lambda>n c. n * b + digit_of c) n ds \<le> maxUint64 \<Longrightarrow>
     parse_digits b n ds = Inr (foldl (\<lambda>n c. n * b + digit_of c) n ds)"
proof (induction ds arbitrary: n)
  case Nil
  then show ?case by simp
next
  case (Cons c cs)
  from Cons.prems(2) obtain d where d: "digit_value c = Some d" "d < b"
    by (auto simp add: is_digit_below_def split: option.splits)
  then have dof: "digit_of c = d" by (simp add: digit_of_def)
  have "n * b + d \<le> foldl (\<lambda>n c. n * b + digit_of c) (n * b + d) cs"
    using foldl_value_mono[of b] Cons.prems(1) by simp
  then have bound: "n * b + d \<le> maxUint64"
    using Cons.prems(3) dof by simp
  then have "n * b \<le> maxUint64" by simp
  then have cut: "\<not> n \<ge> maxUint64 div b + 1"
    using Cons.prems(1) by (simp add: less_eq_div_iff_mult_less_eq not_le less_Suc_eq_le)
  have lt: "n * b + d < 2 ^ 64" "n * b < 2 ^ 64"
    using bound by (simp_all add: maxUint64_def)
  have "parse_digits b (n * b + d) cs = Inr (foldl (\<lambda>n c. n * b + digit_of c) (n * b + d) cs)"
    using Cons.IH[of "n * b + d"] Cons.prems dof by simp
  then show ?case
    using d cut lt bound dof by (simp add: Let_def)
qed

lemma ParseInt_valid_numeral:
  assumes "2 \<le> b" "b \<le> 36" "valid_numeral b s"
    and "- (2 ^ 63) \<le> numeral_value b s" "numeral_value b s < 2 ^ 63"
  shows "ParseInt s b = Inr (numeral_value b s)"
proof -
  have b: "2 \<le> nat b" using assms(1) by simp
  obtain c t where s: "s = c # t"
    using assms(3) by (cases s) (auto simp add: valid_numeral_def unsigned_part_def)
  let ?u = "unsigned_part s"
  have u: "?u \<noteq> []" "list_all (is_digit_below (nat b)) ?u"
    using assms(3) by (simp_all add: valid_numeral_def)
  have nv: "numeral_value b s = (if c = CHR ''-'' then - int (unsigned_value (nat b) ?u)
                                 else int (unsigned_value (nat b) ?u))"
    by (simp add: s numeral_value_def unsigned_part_def)
  have small: "unsigned_value (nat b) ?u \<le> 2 ^ 63"
    using assms(4,5) nv by (auto split: if_splits)
  then have "unsigned_value (nat b) ?u \<le> maxUint64"
    by (simp add: maxUint64_def)
  then have "parse_digits (nat b) 0 ?u = Inr (unsigned_value (nat b) ?u)"
    using parse_digits_valid[OF b u(2), of 0] by (simp add: unsigned_value_def)
  then have pu: "ParseUint ?u b = Inr (unsigned_value (nat b) ?u)"
    using u(1) assms(1,2) by (simp add: ParseUint_def)
  show ?thesis
  proof (cases "c = CHR ''-''")
    case True
    then have "?u = t" by (simp add: s unsigned_part_def)
    then show ?thesis
      using True pu nv small by (simp add: ParseInt_def s Let_def)
  next
    case False
    then have lt: "unsigned_value (nat b) ?u < 2 ^ 63"
      using assms(5) nv by simp
    show ?thesis
    proof (cases "c = CHR ''+''")
      case True
      then have "?u = t" by (simp add: s unsigned_part_def)
      then show ?thesis
        using True pu nv lt by (simp add: ParseInt_def s Let_def)
    next
      case plus: False
      then have "?u = c # t" using False by (simp add: s unsigned_part_def)
      then show ?thesis
        using False plus pu nv lt by (simp add: ParseInt_def s Let_def)
    qed
  qed
qed

lemma wrap64_id: "- (2 ^ 63) \<le> x \<Longrightarrow> x < 2 ^ 63 \<Longrightarrow> wrap64 x = x"
  by (simp add: wrap64_def)

section \<open>BaseAdd\<close>

text \<open>
  C9, as amended. For every base \<open>b\<close> with \<open>2 \<le> b \<le> 36\<close> and all valid base-\<open>b\<close>
  numerals \<open>n1\<close> and \<open>n2\<close> whose values and whose sum lie in the range of \<open>int64\<close>,
  \<open>BaseAdd\<close> succeeds, and its result parsed back in base \<open>b\<close> is the exact sum of the
  two values.
\<close>

theorem BaseAdd_round_trip:
  assumes "2 \<le> b" and "b \<le> 36"
    and "valid_numeral b n1" and "valid_numeral b n2"
    and "- (2 ^ 63) \<le> numeral_value b n1" and "numeral_value b n1 < 2 ^ 63"
    and "- (2 ^ 63) \<le> numeral_value b n2" and "numeral_value b n2 < 2 ^ 63"
    and "- (2 ^ 63) \<le> numeral_value b n1 + numeral_value b n2"
    and "numeral_value b n1 + numeral_value b n2 < 2 ^ 63"
  shows "\<exists>r. BaseAdd n1 n2 b = Inr r
            \<and> ParseInt r b = Inr (numeral_value b n1 + numeral_value b n2)"
proof -
  let ?v = "numeral_value b n1 + numeral_value b n2"
  have p1: "ParseInt n1 b = Inr (numeral_value b n1)"
    using assms by (intro ParseInt_valid_numeral)
  have p2: "ParseInt n2 b = Inr (numeral_value b n2)"
    using assms by (intro ParseInt_valid_numeral)
  have "BaseAdd n1 n2 b = Inr (format_int ?v b)"
    using p1 p2 assms(1,2,9,10) by (simp add: BaseAdd_def FormatInt_def wrap64_id)
  moreover have "ParseInt (format_int ?v b) b = Inr ?v"
    using assms(1,2,9,10) by (rule ParseInt_format_int)
  ultimately show ?thesis by simp
qed

theorem BaseAdd_round_trip_witness:
  "valid_numeral 16 ''ff'' \<and> valid_numeral 16 ''-1''
   \<and> numeral_value 16 ''ff'' = 255 \<and> numeral_value 16 ''-1'' = - 1
   \<and> (\<exists>r. BaseAdd ''ff'' ''-1'' 16 = Inr r \<and> ParseInt r 16 = Inr 254)"
proof -
  have v: "valid_numeral 16 ''ff''" "valid_numeral 16 ''-1''"
    by (simp_all add: valid_numeral_def unsigned_part_def is_digit_below_def
        digit_value_def lower_def)
  have n: "numeral_value 16 ''ff'' = 255" "numeral_value 16 ''-1'' = - 1"
    by (simp_all add: numeral_value_def unsigned_part_def unsigned_value_def digit_of_def
        digit_value_def lower_def)
  show ?thesis
    using v n BaseAdd_round_trip[of 16 "''ff''" "''-1''"] by simp
qed

text \<open>
  The largest \<open>int64\<close> plus one, in base 10: both operands are valid numerals and parse,
  the sum wraps around, and the result denotes \<open>-2^63\<close> instead of \<open>2^63\<close>.
\<close>

theorem BaseAdd_overflow_counterexample:
  "valid_numeral 10 ''9223372036854775807'' \<and> valid_numeral 10 ''1''
   \<and> numeral_value 10 ''9223372036854775807'' + numeral_value 10 ''1'' = 9223372036854775808
   \<and> BaseAdd ''9223372036854775807'' ''1'' 10 = Inr ''-9223372036854775808''
   \<and> ParseInt ''-9223372036854775808'' 10 = Inr (- 9223372036854775808)"
proof -
  have "valid_numeral 10 ''9223372036854775807'' \<and> valid_numeral 10 ''1''
      \<and> numeral_value 10 ''9223372036854775807'' + numeral_value 10 ''1'' = 9223372036854775808
      \<and> ParseInt ''-9223372036854775808'' 10 = Inr (- 9223372036854775808)"
    by (simp add: valid_numeral_def unsigned_part_def is_digit_below_def numeral_value_def
        unsigned_value_def digit_of_def ParseInt_def ParseUint_def digit_value_def lower_def
        maxUint64_def Let_def)
  moreover have "BaseAdd ''9223372036854775807'' ''1'' 10 = Inr ''-9223372036854775808''"
    by (simp add: BaseAdd_def ParseInt_def ParseUint_def digit_value_def lower_def
        maxUint64_def Let_def wrap64_def FormatInt_def format_int_def fmt_digits.simps
        digits_def)
  ultimately show ?thesis by simp
qed

section \<open>The two versions of FindValidSums\<close>

lemma inner_loop_slice_acc:
  "inner_loop_slice mn st i iw js res =
     (case inner_loop_slice mn st i iw js [] of Inl f \<Rightarrow> Inl f | Inr ts \<Rightarrow> Inr (res @ ts))"
proof (induction js arbitrary: res)
  case Nil
  then show ?case by simp
next
  case (Cons j js)
  let ?t = "(iw, validInfo st ! nat j, validInfo st ! nat (i + j))"
  have "inner_loop_slice mn st i iw js (res @ [?t]) =
          (case inner_loop_slice mn st i iw js [?t] of Inl f \<Rightarrow> Inl f | Inr ts \<Rightarrow> Inr (res @ ts))"
    using Cons.IH[of "res @ [?t]"] Cons.IH[of "[?t]"] by (simp split: sum.splits)
  then show ?case
    using Cons.IH[of res] by simp
qed

lemma inner_loop_fold:
  "inner_loop mn st i iw js act w =
     (case inner_loop_slice mn st i iw js [] of Inl f \<Rightarrow> Inl f | Inr ts \<Rightarrow> Inr (fold act ts w))"
proof (induction js arbitrary: w)
  case Nil
  then show ?case by simp
next
  case (Cons j js)
  let ?t = "(iw, validInfo st ! nat j, validInfo st ! nat (i + j))"
  have "inner_loop mn st i iw js act (act ?t w) =
          (case inner_loop_slice mn st i iw js [?t] of Inl f \<Rightarrow> Inl f | Inr ts \<Rightarrow> Inr (fold act ts w))"
    using Cons.IH[of "act ?t w"] inner_loop_slice_acc[of mn st i iw js "[?t]"]
    by (simp split: sum.splits)
  then show ?case
    using Cons.IH[of w] by simp
qed

lemma outer_loop_slice_acc:
  "outer_loop_slice mn st is res =
     (case outer_loop_slice mn st is [] of Inl f \<Rightarrow> Inl f | Inr ts \<Rightarrow> Inr (res @ ts))"
proof (induction "is" arbitrary: res)
  case Nil
  then show ?case by simp
next
  case (Cons i "is")
  show ?case
  proof (cases "inner_loop_slice mn st i (validInfo st ! nat i) (validNumbers st) []")
    case (Inl f)
    then show ?thesis
      using inner_loop_slice_acc[of mn st i "validInfo st ! nat i" "validNumbers st" res]
      by simp
  next
    case (Inr ts)
    then have "inner_loop_slice mn st i (validInfo st ! nat i) (validNumbers st) res = Inr (res @ ts)"
      using inner_loop_slice_acc[of mn st i "validInfo st ! nat i" "validNumbers st" res]
      by simp
    then show ?thesis
      using Inr Cons.IH[of "res @ ts"] Cons.IH[of ts] by (simp split: sum.splits)
  qed
qed

lemma outer_loop_fold:
  "outer_loop mn st is act w =
     (case outer_loop_slice mn st is [] of Inl f \<Rightarrow> Inl f | Inr ts \<Rightarrow> Inr (fold act ts w))"
proof (induction "is" arbitrary: w)
  case Nil
  then show ?case by simp
next
  case (Cons i "is")
  show ?case
  proof (cases "inner_loop_slice mn st i (validInfo st ! nat i) (validNumbers st) []")
    case (Inl f)
    then show ?thesis
      using inner_loop_fold[of mn st i "validInfo st ! nat i" "validNumbers st" act w]
      by simp
  next
    case (Inr ts)
    then have "inner_loop mn st i (validInfo st ! nat i) (validNumbers st) act w = Inr (fold act ts w)"
      using inner_loop_fold[of mn st i "validInfo st ! nat i" "validNumbers st" act w]
      by simp
    then show ?thesis
      using Inr Cons.IH[of "fold act ts w"] outer_loop_slice_acc[of mn st "is" ts]
      by (simp split: sum.splits)
  qed
qed

lemma FindValidSums_fold:
  "FindValidSums c maxSum wl act w =
     (case FindValidSums_slice c maxSum wl of Inl f \<Rightarrow> Inl f | Inr ts \<Rightarrow> Inr (fold act ts w))"
  by (simp add: FindValidSums_def FindValidSums_slice_def outer_loop_fold split: sum.splits)

lemma fold_log: "fold (\<lambda>t log. log @ [t]) ts acc = acc @ ts"
  by (induction ts arbitrary: acc) simp_all

lemma emitted_eq_slice: "emitted c maxSum wl = FindValidSums_slice c maxSum wl"
  by (simp add: emitted_def FindValidSums_fold fold_log split: sum.splits)

section \<open>What FindValidSums computes\<close>

lemma fromInt_ok:
  "2 \<le> base c \<Longrightarrow> base c \<le> 36 \<Longrightarrow>
     fromInt c v = Inr (format_int v (base c), FromNumbers c (format_int v (base c)))"
  by (simp add: fromInt_def FormatInt_def Itoa_def Let_def)

lemma fromInt_bad_base:
  "base c < 2 \<or> 36 < base c \<Longrightarrow> fromInt c v = Inl (Panic IllegalFormatBase)"
  by (auto simp add: fromInt_def FormatInt_def)

lemma word_of_ok:
  "2 \<le> base c \<Longrightarrow> base c \<le> 36 \<Longrightarrow>
     word_of c v = \<lparr>numbers = format_int v (base c),
                    letters = FromNumbers c (format_int v (base c))\<rparr>"
  by (simp add: word_of_def fromInt_ok)

lemma fromInt_word_of:
  "2 \<le> base c \<Longrightarrow> base c \<le> 36 \<Longrightarrow>
     fromInt c v = Inr (numbers (word_of c v), letters (word_of c v))"
  by (simp add: word_of_ok fromInt_ok)

lemma Word_eta: "\<lparr>numbers = numbers w, letters = letters w\<rparr> = (w :: Word)"
  by (cases w) simp

lemma scan_loop_step_valid:
  assumes b: "2 \<le> base c" "base c \<le> 36"
    and a: "0 \<le> a" "a < m" and inv: "scanned_to c wl m a st" and v: "valid_int c wl a"
  shows "scanned_to c wl m (a + 1)
           \<lparr>validInfo = (validInfo st)[nat a := word_of c a],
            isValid = (isValid st)[nat a := True],
            validNumbers = validNumbers st @ [a]\<rparr>"
proof -
  have up: "[0..a] = [0..a - 1] @ [a]"
    using a(1) upto_rec2[of 0 a] by simp
  have ne: "nat k \<noteq> nat a" if "0 \<le> k" "k \<noteq> a" for k
    using that a(1) by simp
  show ?thesis
    unfolding scanned_to_def
  proof (intro conjI allI impI)
    fix k assume k: "0 \<le> k \<and> k < a + 1"
    show "isValid \<lparr>validInfo = (validInfo st)[nat a := word_of c a],
            isValid = (isValid st)[nat a := True],
            validNumbers = validNumbers st @ [a]\<rparr> ! nat k = valid_int c wl k"
      using k inv v a ne[of k] by (cases "k = a") (auto simp add: scanned_to_def)
  next
    fix k assume k: "0 \<le> k \<and> k < a + 1" and vk: "valid_int c wl k"
    show "validInfo \<lparr>validInfo = (validInfo st)[nat a := word_of c a],
            isValid = (isValid st)[nat a := True],
            validNumbers = validNumbers st @ [a]\<rparr> ! nat k = word_of c k"
      using k vk inv v a ne[of k] by (cases "k = a") (auto simp add: scanned_to_def)
  next
    fix k assume k: "a + 1 \<le> k \<and> k < m"
    show "isValid \<lparr>validInfo = (validInfo st)[nat a := word_of c a],
            isValid = (isValid st)[nat a := True],
            validNumbers = validNumbers st @ [a]\<rparr> ! nat k = False"
      using k inv a ne[of k] by (auto simp add: scanned_to_def)
  qed (use inv v up in \<open>simp_all add: scanned_to_def\<close>)
qed

lemma scan_loop_step_invalid:
  assumes a: "0 \<le> a" "a < m" and inv: "scanned_to c wl m a st" and v: "\<not> valid_int c wl a"
  shows "scanned_to c wl m (a + 1) st"
proof -
  have up: "[0..a] = [0..a - 1] @ [a]"
    using a(1) upto_rec2[of 0 a] by simp
  have "isValid st ! nat a = False"
    using inv a by (simp add: scanned_to_def)
  then have "isValid st ! nat k = valid_int c wl k
             \<and> (valid_int c wl k \<longrightarrow> validInfo st ! nat k = word_of c k)"
    if "0 \<le> k \<and> k < a + 1" for k
    using that inv v by (cases "k = a") (auto simp add: scanned_to_def)
  then show ?thesis
    using inv v up by (simp add: scanned_to_def)
qed

lemma scan_loop_scans:
  assumes b: "2 \<le> base c" "base c \<le> 36"
  shows "0 \<le> a \<Longrightarrow> a \<le> m \<Longrightarrow> nat (m - a) = d \<Longrightarrow> scanned_to c wl m a st \<Longrightarrow>
           \<exists>st'. scan_loop c wl [a..m - 1] st = Inr st' \<and> scanned_to c wl m m st'"
proof (induction d arbitrary: a st)
  case 0
  then have "a = m" by simp
  then show ?case using 0 by simp
next
  case (Suc d)
  then have am: "a < m" by simp
  have list: "[a..m - 1] = a # [a + 1..m - 1]"
    using am upto_rec1[of a "m - 1"] by simp
  have fi: "fromInt c a = Inr (numbers (word_of c a), letters (word_of c a))"
    using b by (rule fromInt_word_of)
  have d: "nat (m - (a + 1)) = d"
    using Suc.prems(3) by linarith
  have rng: "in_range (validInfo st) a" "in_range (isValid st) a"
    using Suc.prems(1,4) am by (simp_all add: in_range_def scanned_to_def)
  show ?case
  proof (cases "valid_int c wl a")
    case True
    let ?st = "\<lparr>validInfo = (validInfo st)[nat a := word_of c a],
            isValid = (isValid st)[nat a := True],
            validNumbers = validNumbers st @ [a]\<rparr>"
    have "scanned_to c wl m (a + 1) ?st"
      using b Suc.prems(1) am Suc.prems(4) True by (rule scan_loop_step_valid)
    then obtain st' where "scan_loop c wl [a + 1..m - 1] ?st = Inr st'" "scanned_to c wl m m st'"
      using Suc.IH[of "a + 1" ?st] Suc.prems(1) am d by auto
    moreover have "scan_loop c wl [a..m - 1] st = scan_loop c wl [a + 1..m - 1] ?st"
      using True fi rng by (simp add: list valid_int_def Word_eta)
    ultimately show ?thesis by simp
  next
    case False
    have "scanned_to c wl m (a + 1) st"
      using Suc.prems(1) am Suc.prems(4) False by (rule scan_loop_step_invalid)
    then obtain st' where "scan_loop c wl [a + 1..m - 1] st = Inr st'" "scanned_to c wl m m st'"
      using Suc.IH[of "a + 1" st] Suc.prems(1) am d by auto
    moreover have "scan_loop c wl [a..m - 1] st = scan_loop c wl [a + 1..m - 1] st"
      using False fi by (simp add: list valid_int_def)
    ultimately show ?thesis by simp
  qed
qed

lemma scan_all_scans:
  assumes "2 \<le> base c" "base c \<le> 36" "0 \<le> m"
  shows "\<exists>st. scan_all c wl m = Inr st \<and> scanned_to c wl m m st"
proof -
  let ?st = "\<lparr>validInfo = replicate (nat m) \<lparr>numbers = [], letters = []\<rparr>,
              isValid = replicate (nat m) False, validNumbers = []\<rparr>"
  have "scanned_to c wl m 0 ?st"
    by (auto simp add: scanned_to_def)
  then show ?thesis
    using scan_loop_scans[OF assms(1,2), of 0 m "nat m" wl ?st] assms(3)
    by (simp add: scan_all_def)
qed

lemma scan_all_bad_base:
  assumes "base c < 2 \<or> 36 < base c" "0 < m"
  shows "scan_all c wl m = Inl (Panic IllegalFormatBase)"
proof -
  have "[0..m - 1] = 0 # [1..m - 1]"
    using assms(2) upto_rec1[of 0 "m - 1"] by simp
  then show ?thesis
    using assms by (simp add: scan_all_def fromInt_bad_base)
qed


lemma quo_two: "0 \<le> a \<Longrightarrow> quo a 2 = a div 2"
  by (cases "a = 0") (simp_all add: quo_def)

lemma half_sum_less:
  fixes i j m :: int
  assumes "i \<le> j" "j < m div 2"
  shows "i + j < m"
proof -
  have "2 * (m div 2) \<le> m" by presburger
  then show ?thesis using assms by linarith
qed

lemma inner_loop_slice_eq:
  assumes sc: "scanned_to c wl m m st" and m: "0 \<le> m" and i: "0 \<le> i"
  shows "\<forall>j\<in>set js. 0 \<le> j \<and> j < m \<and> valid_int c wl j \<Longrightarrow>
     inner_loop_slice (quo m 2) st i iw js res =
       Inr (res @ map (\<lambda>j. (iw, word_of c j, word_of c (i + j)))
                     (filter (\<lambda>j. i \<le> j \<and> valid_int c wl (i + j))
                        (takeWhile (\<lambda>j. j < i \<or> j < quo m 2) js)))"
proof (induction js arbitrary: res)
  case Nil
  then show ?case by simp
next
  case (Cons j js)
  have j: "0 \<le> j" "j < m" "valid_int c wl j"
    using Cons.prems by simp_all
  have rest: "\<forall>j\<in>set js. 0 \<le> j \<and> j < m \<and> valid_int c wl j"
    using Cons.prems by simp
  note IH = Cons.IH[OF rest]
  show ?case
  proof (cases "j < i")
    case True
    then show ?thesis using IH[of res] by simp
  next
    case False
    show ?thesis
    proof (cases "j \<ge> quo m 2")
      case True
      then show ?thesis using False by simp
    next
      case below: False
      have ij: "0 \<le> i + j" "i + j < m"
        using False below i j(1) half_sum_less[of i j m] quo_two[OF m] by simp_all
      have r1: "in_range (isValid st) (i + j)" "in_range (validInfo st) (i + j)"
          "in_range (validInfo st) j"
        using sc ij j by (simp_all add: in_range_def scanned_to_def)
      have v: "isValid st ! nat (i + j) = valid_int c wl (i + j)"
        using sc ij by (simp add: scanned_to_def)
      have wj: "validInfo st ! nat j = word_of c j"
        using sc j by (simp add: scanned_to_def)
      show ?thesis
      proof (cases "valid_int c wl (i + j)")
        case True
        have "validInfo st ! nat (i + j) = word_of c (i + j)"
          using sc ij True by (simp add: scanned_to_def)
        then show ?thesis
          using False below r1 v True wj
            IH[of "res @ [(iw, word_of c j, word_of c (i + j))]"]
          by simp
      next
        case invalid: False
        then show ?thesis
          using False below r1 v IH[of res] by simp
      qed
    qed
  qed
qed

lemma outer_loop_slice_eq:
  assumes sc: "scanned_to c wl m m st" and m: "0 \<le> m"
  shows "\<forall>i\<in>set is. 0 \<le> i \<and> i < m \<and> valid_int c wl i \<Longrightarrow>
     outer_loop_slice (quo m 2) st is res =
       Inr (res @ concat (map (\<lambda>i. map (\<lambda>j. triplet_of c i j)
                     (filter (\<lambda>j. i \<le> j \<and> valid_int c wl (i + j))
                        (takeWhile (\<lambda>j. j < i \<or> j < quo m 2) (validNumbers st))))
                   (takeWhile (\<lambda>i. i < quo m 2) is)))"
proof (induction "is" arbitrary: res)
  case Nil
  then show ?case by simp
next
  case (Cons i "is")
  have i: "0 \<le> i" "i < m" "valid_int c wl i"
    using Cons.prems by simp_all
  have rest: "\<forall>i\<in>set is. 0 \<le> i \<and> i < m \<and> valid_int c wl i"
    using Cons.prems by simp
  show ?case
  proof (cases "i \<ge> quo m 2")
    case True
    then show ?thesis by simp
  next
    case False
    have rng: "in_range (validInfo st) i"
      using sc i by (simp add: in_range_def scanned_to_def)
    have wi: "validInfo st ! nat i = word_of c i"
      using sc i by (simp add: scanned_to_def)
    have vn: "\<forall>j\<in>set (validNumbers st). 0 \<le> j \<and> j < m \<and> valid_int c wl j"
      using sc by (auto simp add: scanned_to_def)
    let ?row = "map (\<lambda>j. triplet_of c i j)
                  (filter (\<lambda>j. i \<le> j \<and> valid_int c wl (i + j))
                     (takeWhile (\<lambda>j. j < i \<or> j < quo m 2) (validNumbers st)))"
    have "inner_loop_slice (quo m 2) st i (word_of c i) (validNumbers st) res = Inr (res @ ?row)"
      using inner_loop_slice_eq[OF sc m i(1) vn, of "word_of c i" res]
      by (simp add: triplet_of_def)
    then show ?thesis
      using False rng wi Cons.IH[OF rest, of "res @ ?row"] by simp
  qed
qed

lemma takeWhile_less_sorted:
  fixes xs :: "int list"
  shows "sorted xs \<Longrightarrow> takeWhile (\<lambda>x. x < t) xs = filter (\<lambda>x. x < t) xs"
proof (induction xs)
  case Nil
  then show ?case by simp
next
  case (Cons x xs)
  show ?case
  proof (cases "x < t")
    case True
    then show ?thesis using Cons by simp
  next
    case False
    then have "\<forall>y\<in>set xs. \<not> y < t" using Cons.prems by auto
    then have "filter (\<lambda>x. x < t) xs = []" by (simp add: filter_empty_conv)
    then show ?thesis using False by simp
  qed
qed

lemma FindValidSums_slice_set:
  assumes b: "2 \<le> base c" "base c \<le> 36" and m: "0 \<le> m"
  shows "\<exists>ts. FindValidSums_slice c m wl = Inr ts \<and>
           set ts = {triplet_of c i j | i j.
                       0 \<le> i \<and> i \<le> j \<and> j < quo m 2
                       \<and> valid_int c wl i \<and> valid_int c wl j \<and> valid_int c wl (i + j)}"
proof -
  obtain st where st: "scan_all c wl m = Inr st" and sc: "scanned_to c wl m m st"
    using scan_all_scans[OF b m] by blast
  let ?vn = "validNumbers st"
  have vn: "?vn = filter (valid_int c wl) [0..m - 1]"
    using sc by (simp add: scanned_to_def)
  have mem: "\<forall>j\<in>set ?vn. 0 \<le> j \<and> j < m \<and> valid_int c wl j"
    by (auto simp add: vn)
  have srt: "sorted ?vn"
    by (simp add: vn sorted_filter[where f = id, simplified])
  let ?ts = "concat (map (\<lambda>i. map (\<lambda>j. triplet_of c i j)
                     (filter (\<lambda>j. i \<le> j \<and> valid_int c wl (i + j))
                        (takeWhile (\<lambda>j. j < i \<or> j < quo m 2) ?vn)))
                   (takeWhile (\<lambda>i. i < quo m 2) ?vn))"
  have run: "FindValidSums_slice c m wl = Inr ?ts"
    using st outer_loop_slice_eq[OF sc m mem, of "[]"] by (simp add: FindValidSums_slice_def)
  have outer: "takeWhile (\<lambda>i. i < quo m 2) ?vn = filter (\<lambda>i. i < quo m 2) ?vn"
    using srt by (rule takeWhile_less_sorted)
  have inner: "takeWhile (\<lambda>j. j < i \<or> j < quo m 2) ?vn = filter (\<lambda>j. j < quo m 2) ?vn"
    if "i < quo m 2" for i
  proof -
    have "(\<lambda>j. j < i \<or> j < quo m 2) = (\<lambda>j. j < quo m 2)"
      using that by auto
    then show ?thesis using takeWhile_less_sorted[OF srt, of "quo m 2"] by simp
  qed
  have half: "quo m 2 \<le> m"
    using m quo_two[OF m] by simp
  have "set ?ts = {triplet_of c i j | i j.
                       0 \<le> i \<and> i \<le> j \<and> j < quo m 2
                       \<and> valid_int c wl i \<and> valid_int c wl j \<and> valid_int c wl (i + j)}"
    (is "?L = ?R")
  proof (intro set_eqI iffI)
    fix t assume "t \<in> ?L"
    then obtain i j where i: "i \<in> set ?vn" "i < quo m 2"
        and j: "j \<in> set (takeWhile (\<lambda>j. j < i \<or> j < quo m 2) ?vn)"
               "i \<le> j" "valid_int c wl (i + j)"
        and t: "t = triplet_of c i j"
      by (auto simp add: outer)
    have "j \<in> set ?vn" "j < quo m 2"
      using j(1) inner[OF i(2)] by simp_all
    then show "t \<in> ?R"
      using i j t mem by blast
  next
    fix t assume "t \<in> ?R"
    then obtain i j where t: "t = triplet_of c i j" and ij: "0 \<le> i" "i \<le> j" "j < quo m 2"
        and v: "valid_int c wl i" "valid_int c wl j" "valid_int c wl (i + j)"
      by blast
    have "i \<in> set ?vn" "j \<in> set ?vn"
      using ij v half by (simp_all add: vn)
    moreover have "i < quo m 2" using ij by simp
    ultimately have "j \<in> set (takeWhile (\<lambda>j. j < i \<or> j < quo m 2) ?vn)"
      and "i \<in> set (takeWhile (\<lambda>i. i < quo m 2) ?vn)"
      using ij inner[of i] by (simp_all add: outer)
    then show "t \<in> ?L"
      using t ij v by auto
  qed
  then show ?thesis using run by blast
qed

section \<open>The numerals of a cipher built from a key\<close>

lemma runes_ascii:
  "\<forall>ch\<in>set s. (of_char ch :: nat) < 0x80 \<Longrightarrow> runes s = map (\<lambda>ch. int (of_char ch)) s"
proof (induction s)
  case Nil
  then show ?case by (simp add: runes.simps)
next
  case (Cons ch s)
  then have "decode_rune (ch # s) = (int (of_char ch), 1)"
    by (simp add: decode_rune_def)
  then have "runes (ch # s) = int (of_char ch) # runes s"
    by (subst runes.simps) simp
  then show ?case using Cons by simp
qed

lemma digit_rune_in_symbols:
  assumes "1 \<le> L" "L \<le> 36" "d < L"
  shows "int (of_char (digits ! d)) \<in> insert 0x30 (set (value_symbols (int L - 1)))"
proof (cases "d = 0")
  case True
  then show ?thesis by (simp add: digits_def)
next
  case False
  let ?g = "\<lambda>i. if i < 9 then 0x31 + int i else 0x58 + int i"
  have d: "d < 36" using assms by simp
  have "nat (int L - 1) = L - 1" by simp
  then have vs: "value_symbols (int L - 1) = map ?g [0..<L - 1]"
    using assms value_symbols_eq[of "int L - 1"] by simp
  have "d - 1 \<in> set [0..<L - 1]" using False assms(3) by simp
  then have "?g (d - 1) \<in> ?g ` set [0..<L - 1]" by (rule imageI)
  then have mem: "?g (d - 1) \<in> set (value_symbols (int L - 1))"
    unfolding vs set_map .
  have nth: "(of_char (digits ! d) :: nat) = (if d < 10 then 0x30 + d else 0x57 + d)"
    using d by (rule digits_nth)
  have "int (of_char (digits ! d)) = ?g (d - 1)"
  proof (cases "d < 10")
    case True
    then have "int (of_char (digits ! d)) = 0x30 + int d" using nth by simp
    moreover have "?g (d - 1) = 0x31 + int (d - 1)" using True by simp
    moreover have "int (d - 1) = int d - 1" using False by simp
    ultimately show ?thesis by simp
  next
    case ge: False
    then have "int (of_char (digits ! d)) = 0x57 + int d" using nth by simp
    moreover have "?g (d - 1) = 0x58 + int (d - 1)" using ge by simp
    moreover have "int (d - 1) = int d - 1" using False by simp
    ultimately show ?thesis by simp
  qed
  then show ?thesis using mem by simp
qed

lemma fmt_digits_ascii:
  assumes "2 \<le> b" "b \<le> 36" "ch \<in> set (fmt_digits b u)"
  shows "(of_char ch :: nat) < 0x80"
proof -
  obtain d where d: "d < b" "ch = digits ! d"
    using fmt_digits_chars[OF assms(1,3)] by blast
  then have "d < 36" using assms(2) by simp
  then show ?thesis using digits_nth[of d] d(2) by (simp split: if_splits)
qed

lemma CipherFromKey_base:
  assumes "CipherFromKey k leading0 = Inr c"
  shows "base c = int (length k) \<and> length k < 36"
proof -
  have ok: "length k < 36 \<and> distinct (runes k) \<and> length (runes k) = length k"
    using assms CipherFromKey_Inr_iff[of k leading0] by blast
  then show ?thesis
    using CipherFromKey_ok[of k leading0] assms by auto
qed

lemma CipherFromKey_dom_numbers:
  assumes "CipherFromKey k leading0 = Inr c" "1 \<le> length k"
  shows "dom (numberToLetter c) = insert 0x30 (set (value_symbols (int (length k) - 1)))"
proof -
  have ok: "length k < 36" "distinct (runes k)" "length (runes k) = length k"
    using assms(1) CipherFromKey_Inr_iff[of k leading0] by blast+
  obtain ns where ns: "MakeNumbers (int (length k)) leading0 = Inr ns"
    and dom: "dom (numberToLetter c) = set (take (length k) ns)"
    using CipherFromKey_ok[OF ok, of leading0] assms(1) by auto
  obtain ns' where "MakeNumbers (int (length k)) leading0 = Inr ns'" "length ns' = length k"
      "set ns' = insert 0x30 (set (value_symbols (int (length k) - 1)))"
    using MakeNumbers_props[of "int (length k)" leading0] ok(1) assms(2) by auto
  then show ?thesis using ns dom by simp
qed

lemma fromInt_symbols:
  assumes c: "CipherFromKey k leading0 = Inr c" and k: "2 \<le> length k" and v: "0 \<le> v"
  shows "fromInt c v = Inr (format_int v (base c), FromNumbers c (format_int v (base c)))
       \<and> set (runes (format_int v (base c))) \<subseteq> dom (numberToLetter c)"
proof -
  have b: "base c = int (length k)" "length k < 36"
    using CipherFromKey_base[OF c] by simp_all
  have b2: "2 \<le> base c" "base c \<le> 36" using b k by simp_all
  have nb: "2 \<le> nat (base c)" "nat (base c) \<le> 36" using b2 by simp_all
  let ?s = "fmt_digits (nat (base c)) (nat v)"
  have fmt: "format_int v (base c) = ?s" using v by (simp add: format_int_def)
  have "\<forall>ch\<in>set ?s. (of_char ch :: nat) < 0x80"
    using fmt_digits_ascii[OF nb] by blast
  then have r: "runes ?s = map (\<lambda>ch. int (of_char ch)) ?s" by (rule runes_ascii)
  have "int (of_char ch) \<in> dom (numberToLetter c)" if ch: "ch \<in> set ?s" for ch
  proof -
    obtain d where d: "d < nat (base c)" "ch = digits ! d"
      using fmt_digits_chars[OF nb(1) ch] by blast
    have "int (of_char (digits ! d)) \<in> insert 0x30 (set (value_symbols (int (length k) - 1)))"
      using digit_rune_in_symbols[of "length k" d] d(1) b k by simp
    then show ?thesis
      using d(2) CipherFromKey_dom_numbers[OF c] k by simp
  qed
  then have "set (runes ?s) \<subseteq> dom (numberToLetter c)"
    unfolding r by auto
  then show ?thesis using fromInt_ok[OF b2] fmt by simp
qed

lemma word_of_value:
  assumes "2 \<le> base c" "base c \<le> 36"
  shows "numeral_value (base c) (numbers (word_of c v)) = v
       \<and> letters (word_of c v) = FromNumbers c (numbers (word_of c v))"
  using assms by (simp add: word_of_ok numeral_value_format_int)

lemma slice_empty: "m \<le> 0 \<Longrightarrow> FindValidSums_slice c m wl = Inr ts \<Longrightarrow> ts = []"
  by (cases "m = 0") (simp_all add: FindValidSums_slice_def scan_all_def)

lemma slice_bad_base:
  "base c < 2 \<or> 36 < base c \<Longrightarrow> 0 < m \<Longrightarrow> FindValidSums_slice c m wl = Inl (Panic IllegalFormatBase)"
  by (simp add: FindValidSums_slice_def scan_all_bad_base)

section \<open>A run on a small dictionary\<close>

lemma upto7: "[0..7::int] = [0, 1, 2, 3, 4, 5, 6, 7]"
  by (simp add: upto_rec1)

lemmas eval_fromInt = fromInt_def FormatInt_def format_int_def fmt_digits.simps digits_def
  cipher_ab_def FromNumbers_def runes.simps decode_rune_def string_of_runes_def map_index_def
  encode_rune_def char_of_eq_iff

lemma fromInt_ab:
  "fromInt cipher_ab 0 = Inr (''0'', ''b'')"
  "fromInt cipher_ab 1 = Inr (''1'', ''a'')"
  "fromInt cipher_ab 2 = Inr (''10'', ''ab'')"
  "fromInt cipher_ab 3 = Inr (''11'', ''aa'')"
  "fromInt cipher_ab 4 = Inr (''100'', ''abb'')"
  "fromInt cipher_ab 5 = Inr (''101'', ''aba'')"
  "fromInt cipher_ab 6 = Inr (''110'', ''aab'')"
  "fromInt cipher_ab 7 = Inr (''111'', ''aaa'')"
  by (simp_all add: eval_fromInt)

lemma emitted_ab_8:
  "emitted cipher_ab 8 words_ab =
     Inr [(\<lparr>numbers = ''0'', letters = ''b''\<rparr>, \<lparr>numbers = ''0'', letters = ''b''\<rparr>, \<lparr>numbers = ''0'', letters = ''b''\<rparr>),
          (\<lparr>numbers = ''0'', letters = ''b''\<rparr>, \<lparr>numbers = ''1'', letters = ''a''\<rparr>, \<lparr>numbers = ''1'', letters = ''a''\<rparr>),
          (\<lparr>numbers = ''0'', letters = ''b''\<rparr>, \<lparr>numbers = ''10'', letters = ''ab''\<rparr>, \<lparr>numbers = ''10'', letters = ''ab''\<rparr>),
          (\<lparr>numbers = ''0'', letters = ''b''\<rparr>, \<lparr>numbers = ''11'', letters = ''aa''\<rparr>, \<lparr>numbers = ''11'', letters = ''aa''\<rparr>),
          (\<lparr>numbers = ''1'', letters = ''a''\<rparr>, \<lparr>numbers = ''1'', letters = ''a''\<rparr>, \<lparr>numbers = ''10'', letters = ''ab''\<rparr>),
          (\<lparr>numbers = ''1'', letters = ''a''\<rparr>, \<lparr>numbers = ''10'', letters = ''ab''\<rparr>, \<lparr>numbers = ''11'', letters = ''aa''\<rparr>)]"
  by (simp add: emitted_def FindValidSums_def scan_all_def upto7 fromInt_ab IsValidWord_def
      words_ab_def in_range_def quo_def)

lemma emitted_ab_4:
  "emitted cipher_ab 4 words_ab =
     Inr [(\<lparr>numbers = ''0'', letters = ''b''\<rparr>, \<lparr>numbers = ''0'', letters = ''b''\<rparr>, \<lparr>numbers = ''0'', letters = ''b''\<rparr>),
          (\<lparr>numbers = ''0'', letters = ''b''\<rparr>, \<lparr>numbers = ''1'', letters = ''a''\<rparr>, \<lparr>numbers = ''1'', letters = ''a''\<rparr>),
          (\<lparr>numbers = ''1'', letters = ''a''\<rparr>, \<lparr>numbers = ''1'', letters = ''a''\<rparr>, \<lparr>numbers = ''10'', letters = ''ab''\<rparr>)]"
  by (simp add: emitted_def FindValidSums_def scan_all_def upto_rec1 fromInt_ab IsValidWord_def
      words_ab_def in_range_def quo_def)

section \<open>The search and the numerals on ciphers built from keys\<close>

text \<open>
  What the search computes on a cipher whose base is a base. For every cipher built from a
  key of at least two symbols, every word list and every bound \<open>maxSum \<ge> 0\<close>,
  \<open>FindValidSums\<close> returns, and the triplets it emits are exactly the triplets of the words
  of \<open>va\<close>, \<open>vb\<close> and \<open>va + vb\<close> for the integers \<open>0 \<le> va \<le> vb < maxSum/2\<close> with
  \<open>va + vb < maxSum\<close> whose three words have their letters in the word list. The word of
  an integer holds its numeral in the cipher's base and the decoding of that numeral, so
  in every emitted triplet the three letter strings are dictionary words and the values of
  the first two numerals sum to the value of the third.
\<close>

theorem FindValidSums_exact:
  assumes "CipherFromKey k leading0 = Inr c" and "2 \<le> length k" and "0 \<le> maxSum"
  shows "\<exists>ts. emitted c maxSum wl = Inr ts
      \<and> set ts = {(word_of c va, word_of c vb, word_of c (va + vb)) | va vb.
                   0 \<le> va \<and> va \<le> vb \<and> vb < quo maxSum 2 \<and> va + vb < maxSum
                   \<and> letters (word_of c va) \<in> wl \<and> letters (word_of c vb) \<in> wl
                   \<and> letters (word_of c (va + vb)) \<in> wl}
      \<and> (\<forall>(a, b, s) \<in> set ts.
            letters a \<in> wl \<and> letters b \<in> wl \<and> letters s \<in> wl
            \<and> numeral_value (base c) (numbers a) + numeral_value (base c) (numbers b)
                = numeral_value (base c) (numbers s))
      \<and> (\<forall>v. numeral_value (base c) (numbers (word_of c v)) = v
            \<and> letters (word_of c v) = FromNumbers c (numbers (word_of c v)))"
proof -
  have b: "2 \<le> base c" "base c \<le> 36"
    using CipherFromKey_base[OF assms(1)] assms(2) by simp_all
  note wv = word_of_value[OF b]
  obtain ts where run: "FindValidSums_slice c maxSum wl = Inr ts"
    and ts: "set ts = {triplet_of c i j | i j.
                         0 \<le> i \<and> i \<le> j \<and> j < quo maxSum 2
                         \<and> valid_int c wl i \<and> valid_int c wl j \<and> valid_int c wl (i + j)}"
    using FindValidSums_slice_set[OF b assms(3)] by blast
  have sum: "i + j < maxSum" if "i \<le> j" "j < quo maxSum 2" for i j
    using that half_sum_less[of i j maxSum] quo_two[OF assms(3)] by simp
  have set_eq: "set ts = {(word_of c va, word_of c vb, word_of c (va + vb)) | va vb.
                   0 \<le> va \<and> va \<le> vb \<and> vb < quo maxSum 2 \<and> va + vb < maxSum
                   \<and> letters (word_of c va) \<in> wl \<and> letters (word_of c vb) \<in> wl
                   \<and> letters (word_of c (va + vb)) \<in> wl}"
    unfolding ts triplet_of_def valid_int_def IsValidWord_def
    using sum by blast
  have "letters a \<in> wl \<and> letters b \<in> wl \<and> letters s \<in> wl
        \<and> numeral_value (base c) (numbers a) + numeral_value (base c) (numbers b)
            = numeral_value (base c) (numbers s)"
    if mem: "(a, b, s) \<in> set ts" for a b s
  proof -
    obtain va vb where "a = word_of c va" "b = word_of c vb" "s = word_of c (va + vb)"
      "letters (word_of c va) \<in> wl" "letters (word_of c vb) \<in> wl"
      "letters (word_of c (va + vb)) \<in> wl"
      using mem unfolding set_eq by blast
    then show ?thesis using wv by simp
  qed
  then have "\<forall>(a, b, s) \<in> set ts.
            letters a \<in> wl \<and> letters b \<in> wl \<and> letters s \<in> wl
            \<and> numeral_value (base c) (numbers a) + numeral_value (base c) (numbers b)
                = numeral_value (base c) (numbers s)"
    by blast
  then show ?thesis
    using run set_eq wv emitted_eq_slice[of c maxSum wl] by auto
qed

theorem FindValidSums_exact_witness:
  "CipherFromKey ''ab'' False = Inr cipher_ab \<and> 2 \<le> length ''ab'' \<and> (0::int) \<le> 8
   \<and> (\<exists>ts. emitted cipher_ab 8 words_ab = Inr ts \<and> length ts = 6
        \<and> set ts = {(word_of cipher_ab va, word_of cipher_ab vb, word_of cipher_ab (va + vb))
                     | va vb.
                     0 \<le> va \<and> va \<le> vb \<and> vb < quo 8 2 \<and> va + vb < 8
                     \<and> letters (word_of cipher_ab va) \<in> words_ab
                     \<and> letters (word_of cipher_ab vb) \<in> words_ab
                     \<and> letters (word_of cipher_ab (va + vb)) \<in> words_ab})"
proof -
  have key: "CipherFromKey ''ab'' False = Inr cipher_ab"
    by (simp add: CipherFromKey_def MakeNumbers_def for_range_def cipher_ab_def
        runes.simps decode_rune_def)
  have len: "2 \<le> length ''ab''" by simp
  have m: "(0::int) \<le> 8" by simp
  from FindValidSums_exact[OF key len m, of words_ab]
  obtain ts where "emitted cipher_ab 8 words_ab = Inr ts"
    and "set ts = {(word_of cipher_ab va, word_of cipher_ab vb, word_of cipher_ab (va + vb))
                     | va vb.
                     0 \<le> va \<and> va \<le> vb \<and> vb < quo 8 2 \<and> va + vb < 8
                     \<and> letters (word_of cipher_ab va) \<in> words_ab
                     \<and> letters (word_of cipher_ab vb) \<in> words_ab
                     \<and> letters (word_of cipher_ab (va + vb)) \<in> words_ab}"
    by blast
  moreover from this(1) have "length ts = 6"
    by (auto simp add: emitted_ab_8)
  ultimately show ?thesis
    using key by auto
qed

text \<open>
  C1. The search should produce its set of triplets for every cipher that \<open>CipherFromKey\<close>
  returns. The one-letter key \<open>a\<close> is accepted (only a length of 36 or more is refused)
  and gives a cipher of base 1; \<open>fromInt\<close> then calls \<open>strconv.FormatInt\<close> with base 1,
  which panics, so the search panics at its first integer and produces nothing.
\<close>

theorem FindValidSums_base_one_panics:
  "CipherFromKey ''a'' True = Inr cipher_a
   \<and> emitted cipher_a 1 {''a''} = Inl (Panic IllegalFormatBase)
   \<and> FindValidSums_slice cipher_a 1 {''a''} = Inl (Panic IllegalFormatBase)"
  by (simp add: CipherFromKey_def MakeNumbers_def for_range_def cipher_a_def
      runes.simps decode_rune_def emitted_def FindValidSums_def FindValidSums_slice_def
      scan_all_def fromInt_def FormatInt_def)

text \<open>
  C6. In every emitted triplet the values of both addends are below \<open>maxSum/2\<close> and the
  value of the sum is below \<open>maxSum\<close>; a pair with an addend at or above \<open>maxSum/2\<close> is
  never emitted, whatever its sum.
\<close>

theorem emitted_bounds:
  assumes "emitted c maxSum wl = Inr ts"
  shows "(\<forall>(a, b, s) \<in> set ts.
            numeral_value (base c) (numbers a) < quo maxSum 2
            \<and> numeral_value (base c) (numbers b) < quo maxSum 2
            \<and> numeral_value (base c) (numbers s) < maxSum)
       \<and> (\<forall>va vb. quo maxSum 2 \<le> va \<or> quo maxSum 2 \<le> vb \<longrightarrow>
             (word_of c va, word_of c vb, word_of c (va + vb)) \<notin> set ts)"
proof (cases "ts = []")
  case True
  then show ?thesis by simp
next
  case False
  have run: "FindValidSums_slice c maxSum wl = Inr ts"
    using assms emitted_eq_slice[of c maxSum wl] by simp
  have m: "0 < maxSum"
    using slice_empty[OF _ run] False by (cases "0 < maxSum") auto
  have b: "2 \<le> base c" "base c \<le> 36"
    using slice_bad_base[of c maxSum wl] m run by (cases "2 \<le> base c"; cases "base c \<le> 36"; simp)+
  note wv = word_of_value[OF b]
  have m0: "0 \<le> maxSum" using m by simp
  obtain ts' where "FindValidSums_slice c maxSum wl = Inr ts'"
    and "set ts' = {triplet_of c i j | i j.
                         0 \<le> i \<and> i \<le> j \<and> j < quo maxSum 2
                         \<and> valid_int c wl i \<and> valid_int c wl j \<and> valid_int c wl (i + j)}"
    using FindValidSums_slice_set[OF b m0] by blast
  then have ts: "set ts = {triplet_of c i j | i j.
                         0 \<le> i \<and> i \<le> j \<and> j < quo maxSum 2
                         \<and> valid_int c wl i \<and> valid_int c wl j \<and> valid_int c wl (i + j)}"
    using run by simp
  have first: "numeral_value (base c) (numbers a) < quo maxSum 2
            \<and> numeral_value (base c) (numbers b) < quo maxSum 2
            \<and> numeral_value (base c) (numbers s) < maxSum"
    if mem: "(a, b, s) \<in> set ts" for a b s
  proof -
    obtain i j where ij: "a = word_of c i" "b = word_of c j" "s = word_of c (i + j)"
      "i \<le> j" "j < quo maxSum 2"
      using mem unfolding ts triplet_of_def by blast
    have "i + j < maxSum"
      using ij(4,5) half_sum_less[of i j maxSum] quo_two[OF m0] by simp
    then show ?thesis using ij wv by simp
  qed
  have second: "(word_of c va, word_of c vb, word_of c (va + vb)) \<notin> set ts"
    if big: "quo maxSum 2 \<le> va \<or> quo maxSum 2 \<le> vb" for va vb
  proof
    assume "(word_of c va, word_of c vb, word_of c (va + vb)) \<in> set ts"
    from first[OF this] have "va < quo maxSum 2" "vb < quo maxSum 2"
      using wv by simp_all
    then show False using big by simp
  qed
  show ?thesis using first second by blast
qed

theorem emitted_bounds_witness:
  "emitted cipher_ab 4 words_ab =
     Inr [(\<lparr>numbers = ''0'', letters = ''b''\<rparr>, \<lparr>numbers = ''0'', letters = ''b''\<rparr>,
           \<lparr>numbers = ''0'', letters = ''b''\<rparr>),
          (\<lparr>numbers = ''0'', letters = ''b''\<rparr>, \<lparr>numbers = ''1'', letters = ''a''\<rparr>,
           \<lparr>numbers = ''1'', letters = ''a''\<rparr>),
          (\<lparr>numbers = ''1'', letters = ''a''\<rparr>, \<lparr>numbers = ''1'', letters = ''a''\<rparr>,
           \<lparr>numbers = ''10'', letters = ''ab''\<rparr>)]
   \<and> quo 4 2 = 2
   \<and> numeral_value (base cipher_ab) ''1'' < quo 4 2
   \<and> numeral_value (base cipher_ab) ''10'' < 4
   \<and> valid_int cipher_ab words_ab 1 \<and> valid_int cipher_ab words_ab 2
   \<and> valid_int cipher_ab words_ab (1 + 2) \<and> (1::int) + 2 < 4
   \<and> (word_of cipher_ab 1, word_of cipher_ab 2, word_of cipher_ab (1 + 2))
        \<notin> set [(\<lparr>numbers = ''0'', letters = ''b''\<rparr>, \<lparr>numbers = ''0'', letters = ''b''\<rparr>,
                 \<lparr>numbers = ''0'', letters = ''b''\<rparr>),
                (\<lparr>numbers = ''0'', letters = ''b''\<rparr>, \<lparr>numbers = ''1'', letters = ''a''\<rparr>,
                 \<lparr>numbers = ''1'', letters = ''a''\<rparr>),
                (\<lparr>numbers = ''1'', letters = ''a''\<rparr>, \<lparr>numbers = ''1'', letters = ''a''\<rparr>,
                 \<lparr>numbers = ''10'', letters = ''ab''\<rparr>)]"
proof -
  note bounds = emitted_bounds[OF emitted_ab_4]
  have q: "quo 4 2 = 2" by (simp add: quo_def)
  have "quo 4 2 \<le> (1::int) \<or> quo 4 2 \<le> (2::int)" by (simp add: q)
  with bounds have out: "(word_of cipher_ab 1, word_of cipher_ab 2, word_of cipher_ab (1 + 2))
        \<notin> set [(\<lparr>numbers = ''0'', letters = ''b''\<rparr>, \<lparr>numbers = ''0'', letters = ''b''\<rparr>,
                 \<lparr>numbers = ''0'', letters = ''b''\<rparr>),
                (\<lparr>numbers = ''0'', letters = ''b''\<rparr>, \<lparr>numbers = ''1'', letters = ''a''\<rparr>,
                 \<lparr>numbers = ''1'', letters = ''a''\<rparr>),
                (\<lparr>numbers = ''1'', letters = ''a''\<rparr>, \<lparr>numbers = ''1'', letters = ''a''\<rparr>,
                 \<lparr>numbers = ''10'', letters = ''ab''\<rparr>)]"
    by blast
  from bounds have "numeral_value (base cipher_ab) ''1'' < quo 4 2
      \<and> numeral_value (base cipher_ab) ''10'' < 4"
    by simp
  moreover have "valid_int cipher_ab words_ab 1 \<and> valid_int cipher_ab words_ab 2
      \<and> valid_int cipher_ab words_ab (1 + 2)"
    by (simp add: valid_int_def word_of_def fromInt_ab IsValidWord_def words_ab_def)
  ultimately show ?thesis
    using out q emitted_ab_4 by simp
qed

text \<open>
  The numerals of a cipher with at least two symbols. For every cipher built from a key
  of at least two symbols and every integer \<open>v \<ge> 0\<close>, \<open>fromInt\<close> returns; every symbol
  of the numeral it produces has an entry in \<open>numberToLetter\<close>, and the letters are the
  decoding of that numeral.
\<close>

theorem fromInt_symbols_defined:
  assumes "CipherFromKey k leading0 = Inr c" and "2 \<le> length k" and "0 \<le> v"
  shows "\<exists>ns ls. fromInt c v = Inr (ns, ls) \<and> ls = FromNumbers c ns
                \<and> set (runes ns) \<subseteq> dom (numberToLetter c)"
  using fromInt_symbols[OF assms] by simp

theorem fromInt_symbols_defined_witness:
  "CipherFromKey ''ab'' False = Inr cipher_ab \<and> 2 \<le> length ''ab'' \<and> (0::int) \<le> 5
   \<and> fromInt cipher_ab 5 = Inr (''101'', ''aba'')
   \<and> set (runes ''101'') \<subseteq> dom (numberToLetter cipher_ab)"
proof -
  have key: "CipherFromKey ''ab'' False = Inr cipher_ab"
    by (simp add: CipherFromKey_def MakeNumbers_def for_range_def cipher_ab_def
        runes.simps decode_rune_def)
  have len: "2 \<le> length ''ab''" by simp
  have v: "(0::int) \<le> 5" by simp
  from fromInt_symbols_defined[OF key len v]
  have "set (runes ''101'') \<subseteq> dom (numberToLetter cipher_ab)"
    by (simp add: fromInt_ab)
  then show ?thesis
    using key fromInt_ab by simp
qed

text \<open>
  C8. For a cipher that \<open>CipherFromKey\<close> returns, the conversion of an integer should
  never fail. With the cipher of the accepted key \<open>a\<close>, of base 1, \<open>fromInt\<close> panics
  already at 0, in \<open>strconv.FormatInt\<close>; the same holds for the empty key, of base 0.
\<close>

theorem fromInt_base_one_panics:
  "CipherFromKey ''a'' False = Inr cipher_a
   \<and> fromInt cipher_a 0 = Inl (Panic IllegalFormatBase)
   \<and> CipherFromKey [] False = Inr \<lparr>letterToNumber = Map.empty, numberToLetter = Map.empty, base = 0\<rparr>
   \<and> fromInt \<lparr>letterToNumber = Map.empty, numberToLetter = Map.empty, base = 0\<rparr> 0
        = Inl (Panic IllegalFormatBase)"
  by (simp add: CipherFromKey_def MakeNumbers_def for_range_def cipher_a_def
      runes.simps decode_rune_def fromInt_def FormatInt_def)

section \<open>The two versions of FindValidSums agree\<close>

lemma slice_fails_in_scan:
  "(FindValidSums_slice c m wl = Inl f) = (scan_all c wl m = Inl f)"
proof (cases "scan_all c wl m")
  case (Inl g)
  then show ?thesis by (simp add: FindValidSums_slice_def)
next
  case (Inr st)
  have m: "0 \<le> m" using Inr by (cases "0 \<le> m") (simp_all add: scan_all_def)
  have "\<exists>ts. FindValidSums_slice c m wl = Inr ts"
  proof (cases "m = 0")
    case True
    then show ?thesis by (simp add: FindValidSums_slice_def scan_all_def)
  next
    case False
    then have pos: "0 < m" using m by simp
    have "2 \<le> base c \<and> base c \<le> 36"
      using scan_all_bad_base[of c m wl] pos Inr by (cases "2 \<le> base c \<and> base c \<le> 36") auto
    then show ?thesis using FindValidSums_slice_set[of c m wl] m by blast
  qed
  then show ?thesis using Inr by auto
qed

text \<open>
  C10. For every bound, cipher and word list, the callback version of \<open>FindValidSums\<close>
  hands to its action exactly the triplets that the slice version returns, one by one and
  in the same order: running it with any action is running the action over the returned
  slice from left to right, and the log of the triplets it emits is the returned slice.
  The two versions fail on the same inputs, and a failure is always one of the first
  loop, before any triplet is emitted.
\<close>

theorem FindValidSums_versions_agree:
  "FindValidSums c maxSum wl action w =
     (case FindValidSums_slice c maxSum wl of
        Inl f \<Rightarrow> Inl f
      | Inr ts \<Rightarrow> Inr (fold action ts w))
   \<and> FindValidSums c maxSum wl (\<lambda>t log. log @ [t]) [] = FindValidSums_slice c maxSum wl
   \<and> (FindValidSums_slice c maxSum wl = Inl f) = (scan_all c wl maxSum = Inl f)"
proof -
  have "FindValidSums c maxSum wl (\<lambda>t log. log @ [t]) [] = emitted c maxSum wl"
    by (simp add: emitted_def)
  then show ?thesis
    using FindValidSums_fold[of c maxSum wl action w] emitted_eq_slice[of c maxSum wl]
      slice_fails_in_scan[of c maxSum wl f]
    by simp
qed

end
